theory Spec2Isabelle
  imports Main "HOL-Library.Word" "HOL-Library.Monad_Syntax"
begin

section \<open>Go primitives\<close>

text \<open>
  Byte slices and strings are lists of 8-bit characters. A run-time panic of the Go
  program (index out of range, nil dereference) is the value \<open>None\<close> of an
  option-valued function.
\<close>

type_synonym bytes = string

text \<open>Go's \<^verbatim>\<open>/\<close> and \<^verbatim>\<open>%\<close> on signed integers truncate towards zero.\<close>

definition go_quot :: "int \<Rightarrow> int \<Rightarrow> int" where
  "go_quot a b = sgn a * sgn b * (\<bar>a\<bar> div \<bar>b\<bar>)"

definition go_rem :: "int \<Rightarrow> int \<Rightarrow> int" where
  "go_rem a b = a - b * go_quot a b"

section \<open>buffer.go: the scratch buffer and its digit formatters\<close>

definition digits :: string where
  "digits = ''0123456789''"

text \<open>\<^verbatim>\<open>digits[k]\<close>: indexing a string out of range panics.\<close>

definition digits_at :: "int \<Rightarrow> char option" where
  "digits_at k = (if 0 \<le> k \<and> k < int (length digits) then Some (digits ! nat k) else None)"

text \<open>
  \<^verbatim>\<open>type buffer struct { bytes.Buffer; tmp [64]byte; next *buffer }\<close>.
  The embedded \<^verbatim>\<open>bytes.Buffer\<close> is its content; \<open>next\<close> is the address of the
  next free buffer, \<open>None\<close> for nil.
\<close>

record buffer =
  Buffer :: bytes
  tmp :: "nat \<Rightarrow> char"
  "next" :: "nat option"

text \<open>The array \<open>tmp\<close> has 64 cells: the indices \<open>0\<close> to \<open>63\<close> of the function.\<close>

definition tmp_len :: nat where
  "tmp_len = 64"

text \<open>\<^verbatim>\<open>buf.tmp[i] = c\<close>, with the bounds check of the array.\<close>

definition tmp_set :: "buffer \<Rightarrow> int \<Rightarrow> char \<Rightarrow> buffer option" where
  "tmp_set b i c =
     (if 0 \<le> i \<and> i < int tmp_len then Some (b\<lparr>tmp := (tmp b)(nat i := c)\<rparr>) else None)"

definition twoDigits :: "buffer \<Rightarrow> int \<Rightarrow> int \<Rightarrow> buffer option" where
  "twoDigits b i d = do {
     c1 \<leftarrow> digits_at (go_rem d 10);
     b1 \<leftarrow> tmp_set b (i + 1) c1;
     c0 \<leftarrow> digits_at (go_rem (go_quot d 10) 10);
     tmp_set b1 i c0
   }"

text \<open>The two loops of \<^verbatim>\<open>nDigits\<close>; each returns the buffer and the index \<open>j\<close> it stopped at.\<close>

function nDigits_digits :: "buffer \<Rightarrow> int \<Rightarrow> int \<Rightarrow> int \<Rightarrow> (buffer \<times> int) option" where
  "nDigits_digits b i j d =
     (if j \<ge> 0 \<and> d > 0 then
        (case digits_at (go_rem d 10) of
           None \<Rightarrow> None
         | Some c \<Rightarrow>
             (case tmp_set b (i + j) c of
                None \<Rightarrow> None
              | Some b1 \<Rightarrow> nDigits_digits b1 i (j - 1) (go_quot d 10)))
      else Some (b, j))"
  by pat_completeness auto
termination
  by (relation "measure (\<lambda>(b, i, j, d). nat (j + 1))") auto

function nDigits_pad :: "buffer \<Rightarrow> int \<Rightarrow> int \<Rightarrow> char \<Rightarrow> buffer option" where
  "nDigits_pad b i j pad =
     (if j \<ge> 0 then
        (case tmp_set b (i + j) pad of
           None \<Rightarrow> None
         | Some b1 \<Rightarrow> nDigits_pad b1 i (j - 1) pad)
      else Some b)"
  by pat_completeness auto
termination
  by (relation "measure (\<lambda>(b, i, j, pad). nat (j + 1))") auto

definition nDigits :: "buffer \<Rightarrow> int \<Rightarrow> int \<Rightarrow> int \<Rightarrow> char \<Rightarrow> buffer option" where
  "nDigits b n i d pad = do {
     (b1, j) \<leftarrow> nDigits_digits b i (n - 1) d;
     nDigits_pad b1 i j pad
   }"

text \<open>
  The loop of \<^verbatim>\<open>someDigits\<close>: \<open>j\<close> is decremented first, so the write at a negative
  index is the panic of the array.
\<close>

function someDigits_loop :: "buffer \<Rightarrow> int \<Rightarrow> int \<Rightarrow> (buffer \<times> int) option" where
  "someDigits_loop b j d =
     (let j1 = j - 1 in
      case digits_at (go_rem d 10) of
        None \<Rightarrow> None
      | Some c \<Rightarrow>
          (case tmp_set b j1 c of
             None \<Rightarrow> None
           | Some b1 \<Rightarrow>
               (let d1 = go_quot d 10 in
                if d1 = 0 then Some (b1, j1) else someDigits_loop b1 j1 d1)))"
  by pat_completeness auto
termination
  by (relation "measure (\<lambda>(b, j, d). nat j)") (auto simp: tmp_set_def split: if_splits)

text \<open>
  \<^verbatim>\<open>copy(buf.tmp[i:], buf.tmp[j:])\<close> moves \<open>min (64 - i) (64 - j)\<close> bytes (as
  \<^verbatim>\<open>memmove\<close> does, reading the cells as they were before the call) and returns that count;
  slicing beyond the array panics.
\<close>

definition someDigits :: "buffer \<Rightarrow> int \<Rightarrow> int \<Rightarrow> (buffer \<times> int) option" where
  "someDigits b i d = do {
     (b1, j) \<leftarrow> someDigits_loop b (int tmp_len) d;
     if 0 \<le> i \<and> i \<le> int tmp_len then
       (let n = min (tmp_len - nat i) (tmp_len - nat j) in
        Some (b1\<lparr>tmp := (\<lambda>k. if nat i \<le> k \<and> k < nat i + n then tmp b1 (nat j + (k - nat i))
                               else tmp b1 k)\<rparr>, int n))
     else None
   }"

text \<open>\<^verbatim>\<open>buf.Write(p)\<close>, \<^verbatim>\<open>buf.WriteString(s)\<close>, \<^verbatim>\<open>buf.WriteByte(c)\<close> append.\<close>

definition buffer_Write :: "buffer \<Rightarrow> bytes \<Rightarrow> buffer" where
  "buffer_Write b p = b\<lparr>Buffer := Buffer b @ p\<rparr>"

text \<open>\<^verbatim>\<open>buf.tmp[:n]\<close>: slicing beyond the array panics.\<close>

definition tmp_slice :: "buffer \<Rightarrow> int \<Rightarrow> bytes option" where
  "tmp_slice b n = (if 0 \<le> n \<and> n \<le> int tmp_len then Some (map (tmp b) [0..<nat n]) else None)"

subsection \<open>The buffer pool\<close>

text \<open>
  Buffers are heap objects: \<open>heap\<close> maps an address to the buffer stored there, the
  addresses below \<open>nalloc\<close> are allocated, and \<open>freeList\<close> is the head of the list
  linked through \<open>next\<close>. The pool's mutex is taken and released inside each operation.
\<close>

record bufferPool =
  heap :: "nat \<Rightarrow> buffer"
  nalloc :: nat
  freeList :: "nat option"

definition new_buffer :: buffer where
  "new_buffer = \<lparr>Buffer = [], tmp = (\<lambda>_. CHR 0x00), next = None\<rparr>"

definition getBuffer :: "bufferPool \<Rightarrow> nat \<times> bufferPool" where
  "getBuffer bp =
     (case freeList bp of
        None \<Rightarrow>
          (nalloc bp, bp\<lparr>heap := (heap bp)(nalloc bp := new_buffer), nalloc := Suc (nalloc bp)\<rparr>)
      | Some b \<Rightarrow>
          (let bp1 = bp\<lparr>freeList := next (heap bp b)\<rparr>
           in (b, bp1\<lparr>heap := (heap bp1)(b := (heap bp1 b)\<lparr>next := None, Buffer := []\<rparr>)\<rparr>)))"

definition putBuffer :: "bufferPool \<Rightarrow> nat \<Rightarrow> bufferPool" where
  "putBuffer bp b =
     (if length (Buffer (heap bp b)) \<ge> 512 then bp
      else bp\<lparr>heap := (heap bp)(b := (heap bp b)\<lparr>next := freeList bp\<rparr>), freeList := Some b\<rparr>)"

text \<open>
  A run of the pool: callers acquire buffers, append to buffers they hold, and release them.
  \<open>handed_out\<close> lists the addresses that the calls of \<^verbatim>\<open>getBuffer\<close> return.
\<close>

datatype pool_op = Acquire | Append nat bytes | Release nat

fun pool_step :: "bufferPool \<Rightarrow> pool_op \<Rightarrow> bufferPool" where
  "pool_step bp Acquire = snd (getBuffer bp)"
| "pool_step bp (Append a p) = bp\<lparr>heap := (heap bp)(a := buffer_Write (heap bp a) p)\<rparr>"
| "pool_step bp (Release a) = putBuffer bp a"

fun handed_out :: "bufferPool \<Rightarrow> pool_op list \<Rightarrow> nat list" where
  "handed_out bp [] = []"
| "handed_out bp (Acquire # ops) = fst (getBuffer bp) # handed_out (pool_step bp Acquire) ops"
| "handed_out bp (x # ops) = handed_out (pool_step bp x) ops"

text \<open>
  \<open>run\<close> is the pool after a sequence of operations. The callers use the pool well,
  \<open>well_used\<close>, when they append to and release only buffers that \<^verbatim>\<open>getBuffer\<close> handed
  to them and that they have not released since; \<open>owned\<close> is the set of the buffers they
  hold after the run, starting with the set \<open>out\<close>.
\<close>

definition run :: "bufferPool \<Rightarrow> pool_op list \<Rightarrow> bufferPool" where
  "run bp ops = foldl pool_step bp ops"

fun owned :: "bufferPool \<Rightarrow> nat set \<Rightarrow> pool_op list \<Rightarrow> nat set" where
  "owned bp out [] = out"
| "owned bp out (Acquire # ops) = owned (pool_step bp Acquire) (insert (fst (getBuffer bp)) out) ops"
| "owned bp out (Append a p # ops) = owned (pool_step bp (Append a p)) out ops"
| "owned bp out (Release a # ops) = owned (pool_step bp (Release a)) (out - {a}) ops"

fun well_used :: "bufferPool \<Rightarrow> nat set \<Rightarrow> pool_op list \<Rightarrow> bool" where
  "well_used bp out [] = True"
| "well_used bp out (Acquire # ops) =
     well_used (pool_step bp Acquire) (insert (fst (getBuffer bp)) out) ops"
| "well_used bp out (Append a p # ops) =
     (a \<in> out \<and> well_used (pool_step bp (Append a p)) out ops)"
| "well_used bp out (Release a # ops) =
     (a \<in> out \<and> well_used (pool_step bp (Release a)) (out - {a}) ops)"

text \<open>
  \<open>chain h start xs\<close>: following \<open>next\<close> from \<open>start\<close> visits exactly the addresses
  \<open>xs\<close> and ends with nil. In \<open>pool_inv bp out xs G\<close> the free list is the list \<open>xs\<close>
  without repetition, \<open>out\<close> are the buffers that callers hold and \<open>G\<close> the buffers that
  were dropped; the three are disjoint and allocated.
\<close>

fun chain :: "(nat \<Rightarrow> buffer) \<Rightarrow> nat option \<Rightarrow> nat list \<Rightarrow> bool" where
  "chain h None xs = (xs = [])"
| "chain h (Some x) [] = False"
| "chain h (Some x) (y # ys) = (x = y \<and> chain h (next (h x)) ys)"

definition pool_inv :: "bufferPool \<Rightarrow> nat set \<Rightarrow> nat list \<Rightarrow> nat set \<Rightarrow> bool" where
  "pool_inv bp out xs G =
     (chain (heap bp) (freeList bp) xs \<and> distinct xs \<and>
      (\<forall>x \<in> set xs. x \<notin> out \<and> x \<notin> G \<and> x < nalloc bp) \<and>
      (\<forall>x \<in> out. x \<notin> G \<and> x < nalloc bp) \<and>
      (\<forall>x \<in> G. x < nalloc bp))"

section \<open>The environment: clock, file system, process\<close>

text \<open>
  What the logger reads from the process and the operating system and never changes is
  the record \<open>env\<close>: the clock (the \<open>n\<close>-th call of \<^verbatim>\<open>time.Now()\<close> returns
  \<open>clock e n\<close>), which paths \<^verbatim>\<open>os.OpenFile\<close> can open, \<^verbatim>\<open>filepath.Join\<close>, the
  result of \<^verbatim>\<open>filepath.Abs(filepath.Dir(os.Args[0]))\<close> (\<open>None\<close> when it fails),
  \<^verbatim>\<open>filepath.Base(os.Args[0])\<close>, the process id and the constants of package
  \<^verbatim>\<open>runtime\<close>.
\<close>

record gotime =
  Year :: int
  Month :: int
  Day :: int
  Hour :: int
  Minute :: int
  Second :: int
  Nanosecond :: int

record env =
  clock :: "nat \<Rightarrow> gotime"
  openable :: "string \<Rightarrow> bool"
  Join :: "string \<Rightarrow> string \<Rightarrow> string"
  workDir :: "string option"
  progName :: string
  pid :: int
  Compiler :: string
  Version :: string
  GOOS :: string
  GOARCH :: string

text \<open>
  An open file is the sequence of bytes written through its handle (every file is opened
  for appending) and the flag that the handle was closed; a handle is an index into the
  list of all files opened so far. \<open>stderr\<close> is the console stream.
\<close>

record os_file =
  path :: string
  written :: bytes
  closed :: bool

record world =
  files :: "os_file list"
  stderr :: bytes
  symlinks :: "string \<Rightarrow> string option"
  tick :: nat

definition time_Now :: "env \<Rightarrow> world \<Rightarrow> gotime \<times> world" where
  "time_Now e w = (clock e (tick w), w\<lparr>tick := Suc (tick w)\<rparr>)"

definition os_OpenFile :: "env \<Rightarrow> world \<Rightarrow> string \<Rightarrow> nat option \<times> world" where
  "os_OpenFile e w fname =
     (if openable e fname
      then (Some (length (files w)),
            w\<lparr>files := files w @ [\<lparr>path = fname, written = [], closed = False\<rparr>]\<rparr>)
      else (None, w))"

text \<open>\<^verbatim>\<open>f.Write(p)\<close> returns the count and whether it failed; it fails on a closed handle.\<close>

definition file_Write :: "world \<Rightarrow> nat \<Rightarrow> bytes \<Rightarrow> nat \<times> bool \<times> world" where
  "file_Write w h p =
     (if h < length (files w) \<and> \<not> closed (files w ! h)
      then (length p, False,
            w\<lparr>files := (files w)[h := (files w ! h)\<lparr>written := written (files w ! h) @ p\<rparr>]\<rparr>)
      else (0, True, w))"

definition file_Close :: "world \<Rightarrow> nat \<Rightarrow> world" where
  "file_Close w h =
     (if h < length (files w) then w\<lparr>files := (files w)[h := (files w ! h)\<lparr>closed := True\<rparr>]\<rparr>
      else w)"

subsection \<open>bufio.Writer\<close>

text \<open>
  \<open>buf\<close> is the buffered part \<^verbatim>\<open>b.buf[0:b.n]\<close>, \<open>wr\<close> the handle of the underlying
  file and \<open>err\<close> the sticky error. \<^verbatim>\<open>Write\<close> is the loop of the standard library
  with its at most two rounds written out: a write that does not fit goes to the file at
  once when nothing is buffered, and otherwise fills the buffer, flushes it and starts again.
\<close>

record bufio_Writer =
  wr :: nat
  buf :: bytes
  err :: bool

definition bufferSize :: nat where
  "bufferSize = 256 * 1024"

definition NewWriterSize :: "nat \<Rightarrow> bufio_Writer" where
  "NewWriterSize h = \<lparr>wr = h, buf = [], err = False\<rparr>"

definition bufio_Flush :: "world \<Rightarrow> bufio_Writer \<Rightarrow> world \<times> bufio_Writer" where
  "bufio_Flush w b =
     (if err b then (w, b)
      else if buf b = [] then (w, b)
      else (case file_Write w (wr b) (buf b) of
              (n, failed, w1) \<Rightarrow> if failed then (w1, b\<lparr>err := True\<rparr>) else (w1, b\<lparr>buf := []\<rparr>)))"

definition bufio_Write :: "world \<Rightarrow> bufio_Writer \<Rightarrow> bytes \<Rightarrow> nat \<times> world \<times> bufio_Writer" where
  "bufio_Write w b p =
     (if length p > bufferSize - length (buf b) \<and> \<not> err b then
        (if buf b = [] then
           (case file_Write w (wr b) p of
              (n, failed, w1) \<Rightarrow> if failed then (n, w1, b\<lparr>err := True\<rparr>) else (n, w1, b))
         else
           (let n = bufferSize - length (buf b);
                rest = drop n p
            in case bufio_Flush w (b\<lparr>buf := buf b @ take n p\<rparr>) of
                 (w1, b1) \<Rightarrow>
                   if err b1 then (n, w1, b1)
                   else if length rest > bufferSize - length (buf b1) then
                     (case file_Write w1 (wr b1) rest of
                        (m, failed, w2) \<Rightarrow>
                          if failed then (n + m, w2, b1\<lparr>err := True\<rparr>) else (n + m, w2, b1))
                   else (n + length rest, w1, b1\<lparr>buf := buf b1 @ rest\<rparr>)))
      else if err b then (0, w, b)
      else (length p, w, b\<lparr>buf := buf b @ p\<rparr>))"

subsection \<open>Decimal formatting of package fmt\<close>

fun dec_nat :: "nat \<Rightarrow> string" where
  "dec_nat n = (if n < 10 then [digits ! n] else dec_nat (n div 10) @ [digits ! (n mod 10)])"

declare dec_nat.simps [simp del]

text \<open>\<^verbatim>\<open>%d\<close> and \<^verbatim>\<open>%0wd\<close>: the zeros go between the sign and the digits.\<close>

definition fmt_d :: "int \<Rightarrow> string" where
  "fmt_d i = (if i < 0 then CHR ''-'' # dec_nat (nat (- i)) else dec_nat (nat i))"

definition fmt_0d :: "nat \<Rightarrow> int \<Rightarrow> string" where
  "fmt_0d wid i =
     (let ds = dec_nat (nat \<bar>i\<bar>) in
      if i < 0 then CHR ''-'' # replicate (wid - 1 - length ds) (CHR ''0'') @ ds
      else replicate (wid - length ds) (CHR ''0'') @ ds)"

text \<open>\<^verbatim>\<open>now.Format("2006/01/02 15:04:05")\<close>.\<close>

definition time_Format :: "gotime \<Rightarrow> string" where
  "time_Format t =
     fmt_0d 4 (Year t) @ ''/'' @ fmt_0d 2 (Month t) @ ''/'' @ fmt_0d 2 (Day t) @ '' '' @
     fmt_0d 2 (Hour t) @ '':'' @ fmt_0d 2 (Minute t) @ '':'' @ fmt_0d 2 (Second t)"

section \<open>The logger\<close>

definition SeverityDebug :: int where "SeverityDebug = 0"
definition SeverityInfo :: int where "SeverityInfo = 1"
definition SeverityWarning :: int where "SeverityWarning = 2"
definition SeverityError :: int where "SeverityError = 3"
definition severityCount :: int where "severityCount = 4"

definition severityChar :: string where
  "severityChar = ''DIWE''"

definition severityName :: "string list" where
  "severityName = [''DEBUG'', ''INFO'', ''WARNING'', ''ERROR'']"

definition severityChar_at :: "int \<Rightarrow> char option" where
  "severityChar_at s =
     (if 0 \<le> s \<and> s < int (length severityChar) then Some (severityChar ! nat s) else None)"

definition severityName_at :: "int \<Rightarrow> string option" where
  "severityName_at s =
     (if 0 \<le> s \<and> s < int (length severityName) then Some (severityName ! nat s) else None)"

text \<open>
  A sink: \<^verbatim>\<open>syncBuffer\<close>. Its back pointer \<^verbatim>\<open>logger\<close> is the logger that the
  methods below take and return; \<open>sb_file\<close> is the field \<^verbatim>\<open>file\<close>, \<open>None\<close> for nil.
\<close>

record syncBuffer =
  Writer :: "bufio_Writer option"
  sb_file :: "nat option"
  sev :: int
  nbytes :: "64 word"

text \<open>\<open>mu\<close> tells whether the mutex is held; \<open>file\<close> is the array of four sinks.\<close>

record logger =
  mu :: bool
  "file" :: "nat \<Rightarrow> syncBuffer option"
  maxSize :: "64 word"
  logDir :: string
  logName :: string
  severityLimit :: int

text \<open>\<^verbatim>\<open>l.file[s]\<close> with the bounds check of the array.\<close>

definition file_at :: "logger \<Rightarrow> int \<Rightarrow> syncBuffer option option" where
  "file_at l s = (if 0 \<le> s \<and> s < severityCount then Some (file l (nat s)) else None)"

definition convDirAbs :: "env \<Rightarrow> string \<Rightarrow> string" where
  "convDirAbs e dir = (case workDir e of None \<Rightarrow> dir | Some wd \<Rightarrow> Join e wd dir)"

definition getLogDir :: "env \<Rightarrow> logger \<Rightarrow> string \<times> logger" where
  "getLogDir e l =
     (let l1 = (if logDir l = [] then l\<lparr>logDir := convDirAbs e ''./log/''\<rparr> else l)
      in (logDir l1, l1))"

definition getLogName :: "env \<Rightarrow> logger \<Rightarrow> string \<times> logger" where
  "getLogName e l =
     (let l1 = (if logName l = [] then l\<lparr>logName := progName e\<rparr> else l)
      in (logName l1, l1))"

definition getMaxSize :: "logger \<Rightarrow> 64 word \<times> logger" where
  "getMaxSize l =
     (let l1 = (if maxSize l = 0 then l\<lparr>maxSize := 1024 * 1024 * 4\<rparr> else l)
      in (maxSize l1, l1))"

definition SetMaxSize :: "logger \<Rightarrow> 64 word \<Rightarrow> logger" where
  "SetMaxSize l s = l\<lparr>maxSize := s\<rparr>"

definition SetSeverityLimit :: "logger \<Rightarrow> int \<Rightarrow> logger" where
  "SetSeverityLimit l s = l\<lparr>severityLimit := s\<rparr>"

subsection \<open>file.go: the rotating sink\<close>

definition syncBuffer_logName ::
    "env \<Rightarrow> logger \<Rightarrow> string \<Rightarrow> gotime \<Rightarrow> (string \<times> string) \<times> logger" where
  "syncBuffer_logName e l tag t =
     (case getLogName e l of
        (n1, l1) \<Rightarrow>
          (let name = n1 @ ''.'' @ tag @ ''.'' @
                 fmt_0d 4 (Year t) @ fmt_0d 2 (Month t) @ fmt_0d 2 (Day t) @ ''-'' @
                 fmt_0d 2 (Hour t) @ fmt_0d 2 (Minute t) @ fmt_0d 2 (Second t) @ ''.'' @
                 fmt_d (pid e) @ ''.log''
           in case getLogName e l1 of (n2, l2) \<Rightarrow> ((name, n2 @ ''.'' @ tag), l2)))"

text \<open>
  \<^verbatim>\<open>create\<close>: the handle is \<open>None\<close> when \<^verbatim>\<open>os.OpenFile\<close> fails. The results of
  \<^verbatim>\<open>os.MkdirAll\<close>, \<^verbatim>\<open>os.Remove\<close> and \<^verbatim>\<open>os.Symlink\<close> are ignored by the code.
\<close>

definition create ::
    "env \<Rightarrow> logger \<Rightarrow> world \<Rightarrow> string \<Rightarrow> gotime \<Rightarrow> nat option \<times> string \<times> logger \<times> world" where
  "create e l w tag t =
     (case syncBuffer_logName e l tag t of
        ((name, link), l1) \<Rightarrow>
          (case getLogDir e l1 of
             (dir, l2) \<Rightarrow>
               (let fname = Join e dir name in
                case os_OpenFile e w fname of
                  (Some h, w1) \<Rightarrow>
                    (let symlink = Join e dir link
                     in (Some h, fname, l2, w1\<lparr>symlinks := (symlinks w1)(symlink \<mapsto> name)\<rparr>))
                | (None, w1) \<Rightarrow> (None, [], l2, w1))))"

definition banner :: "env \<Rightarrow> gotime \<Rightarrow> bytes" where
  "banner e now =
     ''Log file created at: '' @ time_Format now @ [CHR 0x0A] @
     ''Binary: Built with '' @ Compiler e @ '' '' @ Version e @ '' for '' @ GOOS e @ ''/'' @
       GOARCH e @ [CHR 0x0A] @
     ''Log line format: [mm-dd hh:mm:ss.uuuuuu L file:line] msg'' @ [CHR 0x0A]"

text \<open>
  \<^verbatim>\<open>rotateFile\<close> returns whether it failed, with the logger, the world and the sink as
  it leaves them. \<^verbatim>\<open>sb.Flush()\<close> on a nil \<^verbatim>\<open>Writer\<close> and \<^verbatim>\<open>severityName[sb.sev]\<close>
  out of range are its panics.
\<close>

definition rotateFile ::
    "env \<Rightarrow> gotime \<Rightarrow> logger \<Rightarrow> world \<Rightarrow> syncBuffer \<Rightarrow> (bool \<times> logger \<times> world \<times> syncBuffer) option" where
  "rotateFile e now l w sb = do {
     (w1, sb1) \<leftarrow>
       (case sb_file sb of
          None \<Rightarrow> Some (w, sb)
        | Some h \<Rightarrow>
            (case Writer sb of
               None \<Rightarrow> None
             | Some bw \<Rightarrow>
                 (case bufio_Flush w bw of
                    (w', bw') \<Rightarrow> Some (file_Close w' h, sb\<lparr>Writer := Some bw'\<rparr>))));
     tag \<leftarrow> severityName_at (sev sb1);
     (case create e l w1 tag now of
        (f, fname, l2, w2) \<Rightarrow>
          (let sb2 = sb1\<lparr>sb_file := f, nbytes := 0\<rparr> in
           case f of
             None \<Rightarrow> Some (True, l2, w2, sb2)
           | Some h \<Rightarrow>
               (let sb3 = sb2\<lparr>Writer := Some (NewWriterSize h)\<rparr> in
                case file_Write w2 h (banner e now) of
                  (n, failed, w3) \<Rightarrow>
                    Some (failed, l2, w3, sb3\<lparr>nbytes := nbytes sb3 + of_nat n\<rparr>))))
   }"

text \<open>The test of \<^verbatim>\<open>Write\<close> that starts a rotation, in 64-bit unsigned arithmetic.\<close>

definition rotates :: "logger \<Rightarrow> syncBuffer \<Rightarrow> bytes \<Rightarrow> bool" where
  "rotates l sb p = (nbytes sb + of_nat (length p) \<ge> fst (getMaxSize l))"

text \<open>
  \<^verbatim>\<open>syncBuffer.Write\<close> returns the count \<open>n\<close> with the logger, the world and the sink;
  the error of \<^verbatim>\<open>rotateFile\<close> is dropped, as in the code.
\<close>

definition syncBuffer_Write ::
    "env \<Rightarrow> logger \<Rightarrow> world \<Rightarrow> syncBuffer \<Rightarrow> bytes \<Rightarrow> (nat \<times> logger \<times> world \<times> syncBuffer) option" where
  "syncBuffer_Write e l w sb p = do {
     (l2, w2, sb2) \<leftarrow>
       (if rotates l sb p then
          (case time_Now e w of
             (now, w1) \<Rightarrow>
               (case rotateFile e now (snd (getMaxSize l)) w1 sb of
                  None \<Rightarrow> None
                | Some (failed, l1, w', sb') \<Rightarrow> Some (l1, w', sb')))
        else Some (snd (getMaxSize l), w, sb));
     bw \<leftarrow> Writer sb2;
     (case bufio_Write w2 bw p of
        (n, w3, bw') \<Rightarrow> Some (n, l2, w3, sb2\<lparr>Writer := Some bw', nbytes := nbytes sb2 + of_nat n\<rparr>))
   }"

subsection \<open>Header formatting\<close>

text \<open>
  \<^verbatim>\<open>formatHeader\<close> takes a buffer from the pool and returns its address with the pool
  and the world; the receiver \<^verbatim>\<open>l\<close> is not used by the code.
\<close>

definition formatHeader ::
    "env \<Rightarrow> int \<Rightarrow> string \<Rightarrow> int \<Rightarrow> bufferPool \<Rightarrow> world \<Rightarrow> (nat \<times> bufferPool \<times> world) option" where
  "formatHeader e s fname line pool w =
     (case time_Now e w of
        (now, w1) \<Rightarrow>
          (let line1 = (if line < 0 then 0 else line);
               s1 = (if s \<ge> severityCount then SeverityInfo else s)
           in case getBuffer pool of
                (a, pool1) \<Rightarrow> do {
                  b \<leftarrow> tmp_set (heap pool1 a) 0 (CHR ''['');
                  b \<leftarrow> twoDigits b 1 (Month now);
                  b \<leftarrow> tmp_set b 3 (CHR ''-'');
                  b \<leftarrow> twoDigits b 4 (Day now);
                  b \<leftarrow> tmp_set b 6 (CHR '' '');
                  b \<leftarrow> twoDigits b 7 (Hour now);
                  b \<leftarrow> tmp_set b 9 (CHR '':'');
                  b \<leftarrow> twoDigits b 10 (Minute now);
                  b \<leftarrow> tmp_set b 12 (CHR '':'');
                  b \<leftarrow> twoDigits b 13 (Second now);
                  b \<leftarrow> tmp_set b 15 (CHR ''.'');
                  b \<leftarrow> nDigits b 6 16 (go_quot (Nanosecond now) 1000) (CHR ''0'');
                  b \<leftarrow> tmp_set b 22 (CHR '' '');
                  c \<leftarrow> severityChar_at s1;
                  b \<leftarrow> tmp_set b 23 c;
                  b \<leftarrow> tmp_set b 24 (CHR '' '');
                  p \<leftarrow> tmp_slice b 25;
                  b \<leftarrow> Some (buffer_Write b p);
                  b \<leftarrow> Some (buffer_Write b fname);
                  b \<leftarrow> tmp_set b 0 (CHR '':'');
                  (b, n) \<leftarrow> someDigits b 1 line1;
                  b \<leftarrow> tmp_set b (n + 1) (CHR '']'');
                  b \<leftarrow> tmp_set b (n + 2) (CHR '' '');
                  p \<leftarrow> tmp_slice b (n + 3);
                  b \<leftarrow> Some (buffer_Write b p);
                  Some (a, pool1\<lparr>heap := (heap pool1)(a := b)\<rparr>, w1)
                }))"

text \<open>
  \<^verbatim>\<open>header\<close>: \<open>caller\<close> is what \<^verbatim>\<open>runtime.Caller\<close> reports, \<open>None\<close> when it is not ok;
  the file name is cut after its last slash.
\<close>

definition after_last_slash :: "string \<Rightarrow> string" where
  "after_last_slash f =
     (if CHR ''/'' \<in> set f then rev (takeWhile (\<lambda>c. c \<noteq> CHR ''/'') (rev f)) else f)"

definition header ::
    "env \<Rightarrow> int \<Rightarrow> (string \<times> int) option \<Rightarrow> bufferPool \<Rightarrow> world \<Rightarrow> (nat \<times> bufferPool \<times> world) option" where
  "header e s caller pool w =
     (case caller of
        None \<Rightarrow> formatHeader e s ''???'' 1 pool w
      | Some (f, line) \<Rightarrow> formatHeader e s (after_last_slash f) line pool w)"

subsection \<open>Creating the sinks\<close>

text \<open>
  The loop of \<^verbatim>\<open>createFiles\<close>, from \<open>s\<close> downwards. Its test reads
  \<^verbatim>\<open>l.file[s]\<close> only when \<open>s \<ge> l.severityLimit\<close>; the result tells whether
  \<^verbatim>\<open>rotateFile\<close> failed.
\<close>

function createFiles_loop ::
    "env \<Rightarrow> gotime \<Rightarrow> logger \<Rightarrow> world \<Rightarrow> int \<Rightarrow> (bool \<times> logger \<times> world) option" where
  "createFiles_loop e now l w s =
     (if s \<ge> severityLimit l then
        (case file_at l s of
           None \<Rightarrow> None
         | Some (Some sb0) \<Rightarrow> Some (False, l, w)
         | Some None \<Rightarrow>
             (case rotateFile e now l w \<lparr>Writer = None, sb_file = None, sev = s, nbytes = 0\<rparr> of
                None \<Rightarrow> None
              | Some (failed, l1, w1, sb) \<Rightarrow>
                  if failed then Some (True, l1, w1)
                  else createFiles_loop e now (l1\<lparr>file := (file l1)(nat s := Some sb)\<rparr>) w1 (s - 1)))
      else Some (False, l, w))"
  by pat_completeness auto
termination
  by (relation "measure (\<lambda>(e, now, l, w, s). nat (s + 1))")
     (auto simp: file_at_def split: if_splits)

definition createFiles :: "env \<Rightarrow> logger \<Rightarrow> world \<Rightarrow> int \<Rightarrow> (bool \<times> logger \<times> world) option" where
  "createFiles e l w sev0 =
     (case time_Now e w of (now, w1) \<Rightarrow> createFiles_loop e now l w1 sev0)"

subsection \<open>Flushing\<close>

text \<open>
  One round of the loop of \<^verbatim>\<open>flushAll\<close>. \<^verbatim>\<open>file.Sync()\<close> changes nothing in this
  model of files (on a nil file it returns an error, which is ignored).
\<close>

definition flush_slot :: "nat \<Rightarrow> logger \<times> world \<Rightarrow> (logger \<times> world) option" where
  "flush_slot k lw =
     (case lw of
        (l, w) \<Rightarrow>
          (case file l k of
             None \<Rightarrow> Some (l, w)
           | Some sb \<Rightarrow>
               (case Writer sb of
                  None \<Rightarrow> None
                | Some bw \<Rightarrow>
                    (case bufio_Flush w bw of
                       (w1, bw1) \<Rightarrow>
                         Some (l\<lparr>file := (file l)(k := Some (sb\<lparr>Writer := Some bw1\<rparr>))\<rparr>, w1)))))"

definition flushAll :: "logger \<times> world \<Rightarrow> (logger \<times> world) option" where
  "flushAll lw = do {
     lw3 \<leftarrow> flush_slot 3 lw;
     lw2 \<leftarrow> flush_slot 2 lw3;
     lw1 \<leftarrow> flush_slot 1 lw2;
     flush_slot 0 lw1
   }"

definition resetFiles :: "logger \<Rightarrow> logger" where
  "resetFiles l = l\<lparr>file := fold (\<lambda>idx f. f(idx := None)) [0..<nat severityCount] (file l)\<rparr>"

subsection \<open>The operations of the logger\<close>

text \<open>
  The state of the program: the logger, the global buffer pool and the world. An operation
  returns, panics, or blocks for ever on the mutex that is held (\<^verbatim>\<open>l.mu.Lock()\<close>).
\<close>

record state =
  the_logger :: logger
  the_pool :: bufferPool
  the_world :: world

datatype outcome = is_Returned: Returned (result: state) | is_Panicked: Panicked | is_Blocked: Blocked

definition Flush :: "state \<Rightarrow> outcome" where
  "Flush st =
     (if mu (the_logger st) then Blocked
      else
        (case flushAll ((the_logger st)\<lparr>mu := True\<rparr>, the_world st) of
           None \<Rightarrow> Panicked
         | Some (l1, w1) \<Rightarrow> Returned (st\<lparr>the_logger := l1\<lparr>mu := False\<rparr>, the_world := w1\<rparr>)))"

text \<open>\<^verbatim>\<open>l.file[k].Write(data)\<close>: the call on an empty slot is a nil dereference.\<close>

definition write_slot :: "env \<Rightarrow> nat \<Rightarrow> bytes \<Rightarrow> logger \<times> world \<Rightarrow> (logger \<times> world) option" where
  "write_slot e k data lw =
     (case lw of
        (l, w) \<Rightarrow>
          (case file l k of
             None \<Rightarrow> None
           | Some sb \<Rightarrow>
               (case syncBuffer_Write e l w sb data of
                  None \<Rightarrow> None
                | Some (n, l1, w1, sb1) \<Rightarrow> Some (l1\<lparr>file := (file l1)(k := Some sb1)\<rparr>, w1))))"

text \<open>The cases of the \<^verbatim>\<open>switch\<close> of \<^verbatim>\<open>output\<close>, each falling through to the next.\<close>

definition case_SeverityDebug :: "env \<Rightarrow> bytes \<Rightarrow> logger \<times> world \<Rightarrow> (logger \<times> world) option" where
  "case_SeverityDebug e data lw = do {
     (l1, w1) \<leftarrow> write_slot e (nat SeverityDebug) data lw;
     Some (l1, w1\<lparr>stderr := stderr w1 @ data\<rparr>)
   }"

definition case_SeverityInfo :: "env \<Rightarrow> bytes \<Rightarrow> logger \<times> world \<Rightarrow> (logger \<times> world) option" where
  "case_SeverityInfo e data lw = do {
     lw1 \<leftarrow> write_slot e (nat SeverityInfo) data lw;
     case_SeverityDebug e data lw1
   }"

definition case_SeverityWarning :: "env \<Rightarrow> bytes \<Rightarrow> logger \<times> world \<Rightarrow> (logger \<times> world) option" where
  "case_SeverityWarning e data lw = do {
     lw1 \<leftarrow> write_slot e (nat SeverityWarning) data lw;
     case_SeverityInfo e data lw1
   }"

definition case_SeverityError :: "env \<Rightarrow> bytes \<Rightarrow> logger \<times> world \<Rightarrow> (logger \<times> world) option" where
  "case_SeverityError e data lw = do {
     lw1 \<leftarrow> write_slot e (nat SeverityError) data lw;
     case_SeverityWarning e data lw1
   }"

definition switch_s :: "env \<Rightarrow> int \<Rightarrow> bytes \<Rightarrow> logger \<times> world \<Rightarrow> (logger \<times> world) option" where
  "switch_s e s data lw =
     (if s = SeverityError then case_SeverityError e data lw
      else if s = SeverityWarning then case_SeverityWarning e data lw
      else if s = SeverityInfo then case_SeverityInfo e data lw
      else if s = SeverityDebug then case_SeverityDebug e data lw
      else Some lw)"

text \<open>
  \<^verbatim>\<open>output\<close>. When \<^verbatim>\<open>createFiles\<close> fails the function returns at once: the mutex
  stays held and the buffer is not put back.
\<close>

definition "output" :: "env \<Rightarrow> int \<Rightarrow> nat \<Rightarrow> state \<Rightarrow> outcome" where
  "output e s a st =
     (if mu (the_logger st) then Blocked
      else
        (let l = (the_logger st)\<lparr>mu := True\<rparr>;
             data = Buffer (heap (the_pool st) a)
         in case file_at l s of
              None \<Rightarrow> Panicked
            | Some slot \<Rightarrow>
                (case (if slot = None then createFiles e l (the_world st) s
                       else Some (False, l, the_world st)) of
                   None \<Rightarrow> Panicked
                 | Some (failed, l1, w1) \<Rightarrow>
                     if failed then Returned (st\<lparr>the_logger := l1, the_world := w1\<rparr>)
                     else
                       (case switch_s e s data (l1, w1) of
                          None \<Rightarrow> Panicked
                        | Some (l2, w2) \<Rightarrow>
                            (let st1 = \<lparr>the_logger = l2\<lparr>mu := False\<rparr>,
                                       the_pool = putBuffer (the_pool st) a,
                                       the_world = w2\<rparr>
                             in if s \<ge> SeverityError then Flush st1 else Returned st1)))))"

definition SetLogDir :: "env \<Rightarrow> string \<Rightarrow> state \<Rightarrow> outcome" where
  "SetLogDir e dir st =
     (if mu (the_logger st) then Blocked
      else
        (let l = (the_logger st)\<lparr>mu := True\<rparr>;
             dir1 = convDirAbs e dir
         in if dir1 = logDir l then Returned (st\<lparr>the_logger := l\<lparr>mu := False\<rparr>\<rparr>)
            else
              (case flushAll (l, the_world st) of
                 None \<Rightarrow> Panicked
               | Some (l1, w1) \<Rightarrow>
                   Returned (st\<lparr>the_logger := (resetFiles l1)\<lparr>logDir := dir1, mu := False\<rparr>,
                               the_world := w1\<rparr>))))"

definition SetLogName :: "string \<Rightarrow> state \<Rightarrow> outcome" where
  "SetLogName name st =
     (if mu (the_logger st) then Blocked
      else
        (let l = (the_logger st)\<lparr>mu := True\<rparr>
         in if name = logName l then Returned (st\<lparr>the_logger := l\<lparr>mu := False\<rparr>\<rparr>)
            else
              (case flushAll (l, the_world st) of
                 None \<Rightarrow> Panicked
               | Some (l1, w1) \<Rightarrow>
                   Returned (st\<lparr>the_logger := (resetFiles l1)\<lparr>logName := name, mu := False\<rparr>,
                               the_world := w1\<rparr>))))"

text \<open>
  \<^verbatim>\<open>println\<close> and \<^verbatim>\<open>printf\<close>: \<open>msg\<close> is the text that package \<^verbatim>\<open>fmt\<close> makes of the
  arguments (\<^verbatim>\<open>Fprintln\<close> ends it with a newline itself).
\<close>

definition println :: "env \<Rightarrow> int \<Rightarrow> (string \<times> int) option \<Rightarrow> bytes \<Rightarrow> state \<Rightarrow> outcome" where
  "println e s caller msg st =
     (if s < severityLimit (the_logger st) then Returned st
      else
        (case header e s caller (the_pool st) (the_world st) of
           None \<Rightarrow> Panicked
         | Some (a, pool1, w1) \<Rightarrow>
             (let b = buffer_Write (heap pool1 a) (msg @ [CHR 0x0A])
              in output e s a (st\<lparr>the_pool := pool1\<lparr>heap := (heap pool1)(a := b)\<rparr>,
                                  the_world := w1\<rparr>))))"

definition printf :: "env \<Rightarrow> int \<Rightarrow> (string \<times> int) option \<Rightarrow> bytes \<Rightarrow> state \<Rightarrow> outcome" where
  "printf e s caller msg st =
     (if s < severityLimit (the_logger st) then Returned st
      else
        (case header e s caller (the_pool st) (the_world st) of
           None \<Rightarrow> Panicked
         | Some (a, pool1, w1) \<Rightarrow>
             (let b = buffer_Write (heap pool1 a) msg
              in if Buffer b = [] then Panicked
                 else
                   (let b1 = (if last (Buffer b) \<noteq> CHR 0x0A then buffer_Write b [CHR 0x0A] else b)
                    in output e s a (st\<lparr>the_pool := pool1\<lparr>heap := (heap pool1)(a := b1)\<rparr>,
                                        the_world := w1\<rparr>)))))"

definition Debug :: "env \<Rightarrow> (string \<times> int) option \<Rightarrow> bytes \<Rightarrow> state \<Rightarrow> outcome" where
  "Debug e caller msg st = println e SeverityDebug caller msg st"

definition Info :: "env \<Rightarrow> (string \<times> int) option \<Rightarrow> bytes \<Rightarrow> state \<Rightarrow> outcome" where
  "Info e caller msg st = println e SeverityInfo caller msg st"


definition Error :: "env \<Rightarrow> (string \<times> int) option \<Rightarrow> bytes \<Rightarrow> state \<Rightarrow> outcome" where
  "Error e caller msg st = println e SeverityError caller msg st"

definition Debugf :: "env \<Rightarrow> (string \<times> int) option \<Rightarrow> bytes \<Rightarrow> state \<Rightarrow> outcome" where
  "Debugf e caller msg st = printf e SeverityDebug caller msg st"

definition Infof :: "env \<Rightarrow> (string \<times> int) option \<Rightarrow> bytes \<Rightarrow> state \<Rightarrow> outcome" where
  "Infof e caller msg st = printf e SeverityInfo caller msg st"

definition Warningf :: "env \<Rightarrow> (string \<times> int) option \<Rightarrow> bytes \<Rightarrow> state \<Rightarrow> outcome" where
  "Warningf e caller msg st = printf e SeverityWarning caller msg st"

definition Errorf :: "env \<Rightarrow> (string \<times> int) option \<Rightarrow> bytes \<Rightarrow> state \<Rightarrow> outcome" where
  "Errorf e caller msg st = printf e SeverityError caller msg st"

subsection \<open>Initial values\<close>

text \<open>The zero values of the Go variables, and a world in which nothing was opened or written.\<close>

definition init_pool :: bufferPool where
  "init_pool = \<lparr>heap = (\<lambda>_. new_buffer), nalloc = 0, freeList = None\<rparr>"

definition init_logger :: logger where
  "init_logger = \<lparr>mu = False, file = (\<lambda>_. None), maxSize = 0, logDir = [], logName = [],
                  severityLimit = 0\<rparr>"

definition init_world :: world where
  "init_world = \<lparr>files = [], stderr = [], symlinks = (\<lambda>_. None), tick = 0\<rparr>"

definition init_state :: state where
  "init_state = \<lparr>the_logger = init_logger, the_pool = init_pool, the_world = init_world\<rparr>"

subsection \<open>The header as the specification lays it out\<close>

text \<open>
  Auxiliary closed forms of what the digit loops leave in \<open>tmp\<close>: \<open>put_digits\<close> writes
  \<open>n\<close> digits of \<open>d\<close> ending at cell \<open>i + n - 1\<close>, \<open>lsd\<close> lists the last \<open>k\<close> digits
  of a number, and \<open>some_tmp\<close> is the array after \<^verbatim>\<open>someDigits(1, d)\<close>.
\<close>

fun put_digits :: "(nat \<Rightarrow> char) \<Rightarrow> nat \<Rightarrow> nat \<Rightarrow> nat \<Rightarrow> (nat \<Rightarrow> char)" where
  "put_digits f i 0 d = f"
| "put_digits f i (Suc n) d = put_digits (f(i + n := digits ! (d mod 10))) i n (d div 10)"

fun lsd :: "nat \<Rightarrow> nat \<Rightarrow> string" where
  "lsd 0 n = []"
| "lsd (Suc k) n = lsd k (n div 10) @ [digits ! (n mod 10)]"

definition some_tmp :: "(nat \<Rightarrow> char) \<Rightarrow> nat \<Rightarrow> (nat \<Rightarrow> char)" where
  "some_tmp y d =
     (let ds = dec_nat d; n = length ds in
      (\<lambda>k. if 1 \<le> k \<and> k \<le> n then ds ! (k - 1)
           else if 64 - n \<le> k \<and> k < 64 then ds ! (k - (64 - n))
           else y k))"

text \<open>
  The layout in the words of the specification: the letter of a severity, with every value
  outside the enumeration shown as Info; a valid reading of the clock; a number padded with
  zeros to a width; the header text.
\<close>

definition severity_letter :: "int \<Rightarrow> char" where
  "severity_letter s =
     (if s = SeverityDebug then CHR ''D''
      else if s = SeverityInfo then CHR ''I''
      else if s = SeverityWarning then CHR ''W''
      else if s = SeverityError then CHR ''E''
      else CHR ''I'')"

definition valid_time :: "gotime \<Rightarrow> bool" where
  "valid_time t =
     (1 \<le> Month t \<and> Month t \<le> 12 \<and> 1 \<le> Day t \<and> Day t \<le> 31 \<and>
      0 \<le> Hour t \<and> Hour t \<le> 23 \<and> 0 \<le> Minute t \<and> Minute t \<le> 59 \<and>
      0 \<le> Second t \<and> Second t \<le> 59 \<and> 0 \<le> Nanosecond t \<and> Nanosecond t \<le> 999999999)"

definition zpad :: "nat \<Rightarrow> nat \<Rightarrow> string" where
  "zpad wid n = replicate (wid - length (dec_nat n)) (CHR ''0'') @ dec_nat n"

definition spec_header :: "gotime \<Rightarrow> int \<Rightarrow> string \<Rightarrow> int \<Rightarrow> string" where
  "spec_header now s fname line =
     ''['' @ zpad 2 (nat (Month now)) @ ''-'' @ zpad 2 (nat (Day now)) @ '' '' @
     zpad 2 (nat (Hour now)) @ '':'' @ zpad 2 (nat (Minute now)) @ '':'' @
     zpad 2 (nat (Second now)) @ ''.'' @ zpad 6 (nat (Nanosecond now) div 1000) @ '' '' @
     [severity_letter s] @ '' '' @ fname @ '':'' @ dec_nat (nat (max 0 line)) @ ''] ''"

subsection \<open>A concrete environment\<close>

text \<open>
  A clock that always shows 2 January 2024, 03:04:05 and 6000 nanoseconds, files that can
  all be opened, and a \<^verbatim>\<open>Join\<close> that joins with a slash (and cleans the default
  directory \<^verbatim>\<open>./log/\<close>).
\<close>

definition t0 :: gotime where
  "t0 = \<lparr>Year = 2024, Month = 1, Day = 2, Hour = 3, Minute = 4, Second = 5, Nanosecond = 6000\<rparr>"

definition env0 :: env where
  "env0 = \<lparr>clock = (\<lambda>_. t0), openable = (\<lambda>_. True),
           Join = (\<lambda>d n. if n = ''./log/'' then d @ ''/log'' else d @ ''/'' @ n),
           workDir = Some ''/srv'', progName = ''app'', pid = 42, Compiler = ''gc'',
           Version = ''go1.21'', GOOS = ''linux'', GOARCH = ''amd64''\<rparr>"

subsection \<open>Notions for stating what a sink holds\<close>

text \<open>
  \<open>append_to w h p\<close> is the world after \<open>p\<close> went through the handle \<open>h\<close>. A sink is
  \<open>healthy\<close> when its writer wraps its own file, the file is open and no write has failed.
  Its \<open>stream\<close> is all that the sink accepted for its current file: what reached the file
  followed by what the writer still buffers. \<open>cfg_only l l'\<close> says that \<open>l'\<close> differs from
  \<open>l\<close> at most in the directory and the name, which are filled in on first use, and
  \<open>can_create\<close> that every file can be opened.
\<close>

definition append_to :: "world \<Rightarrow> nat \<Rightarrow> bytes \<Rightarrow> world" where
  "append_to w h p =
     w\<lparr>files := (files w)[h := (files w ! h)\<lparr>written := written (files w ! h) @ p\<rparr>]\<rparr>"

definition healthy :: "world \<Rightarrow> syncBuffer \<Rightarrow> bool" where
  "healthy w sb =
     (case Writer sb of
        None \<Rightarrow> False
      | Some bw \<Rightarrow>
          sb_file sb = Some (wr bw) \<and> wr bw < length (files w) \<and>
          \<not> closed (files w ! wr bw) \<and> \<not> err bw)"

definition stream :: "world \<Rightarrow> syncBuffer \<Rightarrow> bytes" where
  "stream w sb =
     (case Writer sb of None \<Rightarrow> [] | Some bw \<Rightarrow> written (files w ! wr bw) @ buf bw)"

definition cfg_only :: "logger \<Rightarrow> logger \<Rightarrow> bool" where
  "cfg_only l l' =
     (file l' = file l \<and> mu l' = mu l \<and> severityLimit l' = severityLimit l \<and>
      maxSize l' = maxSize l)"

definition can_create :: "env \<Rightarrow> bool" where
  "can_create e = (\<forall>p. openable e p)"



subsection \<open>Well-formed loggers\<close>

text \<open>
  In \<open>wf_slots\<close> every populated slot holds a healthy sink of that slot's severity;
  \<open>distinct_handles\<close> says that no two slots share a file; \<open>prefix_slots\<close> that the
  populated slots are the lowest ones. \<open>cascaded n data\<close> relates the logger and world
  before and after the cascade of a record of severity \<open>n\<close>: the stream of every sink up
  to \<open>n\<close> ends with the record, the slots above \<open>n\<close> and the streams of their sinks are
  as before, and the console received the record.
\<close>

definition wf_slots :: "logger \<Rightarrow> world \<Rightarrow> bool" where
  "wf_slots l w = (\<forall>k sb. k < 4 \<and> file l k = Some sb \<longrightarrow> healthy w sb \<and> sev sb = int k)"

definition distinct_handles :: "logger \<Rightarrow> bool" where
  "distinct_handles l =
     (\<forall>j k a b. j < 4 \<and> k < 4 \<and> j \<noteq> k \<and> file l j = Some a \<and> file l k = Some b
        \<longrightarrow> sb_file a \<noteq> sb_file b)"

definition prefix_slots :: "logger \<Rightarrow> bool" where
  "prefix_slots l = (\<forall>j k. j < k \<and> k < 4 \<and> file l k \<noteq> None \<longrightarrow> file l j \<noteq> None)"


text \<open>
  \<open>log_path\<close> is the path that \<^verbatim>\<open>create\<close> opens for a tag at a time, and
  \<open>names_kept e l l'\<close> says that \<open>l'\<close> differs from \<open>l\<close> at most in names filled in on
  first use, so that both loggers lead to the same paths.
\<close>

definition log_path :: "env \<Rightarrow> logger \<Rightarrow> string \<Rightarrow> gotime \<Rightarrow> string" where
  "log_path e l tag t =
     (case syncBuffer_logName e l tag t of
        ((name, link), l1) \<Rightarrow> Join e (fst (getLogDir e l1)) name)"

definition names_kept :: "env \<Rightarrow> logger \<Rightarrow> logger \<Rightarrow> bool" where
  "names_kept e l l' = (cfg_only l l' \<and> (\<forall>tag t. log_path e l' tag t = log_path e l tag t))"

text \<open>
  \<open>grown l w l' w'\<close>: the sinks of \<open>l\<close> are still in their slots and files were only
  added. \<open>same_streams l w l' w'\<close>: the same slots are populated and every sink has the
  stream and the file it had.
\<close>

definition grown :: "logger \<Rightarrow> world \<Rightarrow> logger \<Rightarrow> world \<Rightarrow> bool" where
  "grown l w l' w' =
     ((\<forall>j sb. file l j = Some sb \<longrightarrow> file l' j = Some sb) \<and>
      (\<exists>ys. files w' = files w @ ys) \<and>
      stderr w' = stderr w \<and> tick w' = tick w \<and> mu l' = mu l \<and>
      severityLimit l' = severityLimit l)"

definition same_streams :: "logger \<Rightarrow> world \<Rightarrow> logger \<Rightarrow> world \<Rightarrow> bool" where
  "same_streams l w l' w' =
     ((\<forall>j. (file l' j = None) = (file l j = None)) \<and>
      (\<forall>j sb sb'. j < 4 \<and> file l j = Some sb \<and> file l' j = Some sb'
         \<longrightarrow> stream w' sb' = stream w sb \<and> sb_file sb' = sb_file sb) \<and>
      stderr w' = stderr w \<and> tick w' = tick w \<and>
      mu l' = mu l \<and> severityLimit l' = severityLimit l)"

subsection \<open>Notions for stating what the operations do\<close>

text \<open>
  \<open>site caller\<close> is the file name and the line that \<^verbatim>\<open>header\<close> passes on.
  \<open>println_record\<close> and \<open>printf_record\<close> are the records that \<^verbatim>\<open>println\<close> and
  \<^verbatim>\<open>printf\<close> hand to \<^verbatim>\<open>output\<close>: the header, the text, and a final newline (for
  \<^verbatim>\<open>printf\<close> only when the text does not end with one).
\<close>

definition site :: "(string \<times> int) option \<Rightarrow> string \<times> int" where
  "site caller = (case caller of None \<Rightarrow> (''???'', 1) | Some (f, line) \<Rightarrow> (after_last_slash f, line))"





text \<open>
  \<open>lock_kept st st'\<close> describes the state after a leveled write whose creation of a file
  failed: the mutex is held, the slots are as before, the clock was read twice, and the free
  list of the pool is as \<^verbatim>\<open>getBuffer\<close> left it. \<open>no_gaps\<close> is the invariant of the slots
  in the words of the specification. \<open>flushed\<close> says that the writer of a sink buffers
  nothing, and \<open>sinks_dropped st st'\<close> that the slots of \<open>st'\<close> are empty while the file of
  every sink of \<open>st\<close> holds all that the sink accepted and is still open.
\<close>

definition lock_kept :: "state \<Rightarrow> state \<Rightarrow> bool" where
  "lock_kept st st' =
     (mu (the_logger st') \<and> file (the_logger st') = file (the_logger st) \<and>
      severityLimit (the_logger st') = severityLimit (the_logger st) \<and>
      the_world st' = (the_world st)\<lparr>tick := Suc (Suc (tick (the_world st)))\<rparr> \<and>
      freeList (the_pool st') = freeList (snd (getBuffer (the_pool st))) \<and>
      nalloc (the_pool st') = nalloc (snd (getBuffer (the_pool st))))"

definition no_gaps :: "logger \<Rightarrow> bool" where
  "no_gaps l =
     (\<forall>i \<in> {0..<4}. \<forall>j \<in> {0..i}.
        file l i \<noteq> None \<and> severityLimit l \<le> int j \<longrightarrow> file l j \<noteq> None)"

definition flushed :: "syncBuffer \<Rightarrow> bool" where
  "flushed sb = (case Writer sb of None \<Rightarrow> False | Some bw \<Rightarrow> buf bw = [])"

definition sinks_dropped :: "state \<Rightarrow> state \<Rightarrow> bool" where
  "sinks_dropped st st' =
     (\<not> mu (the_logger st') \<and>
      (\<forall>k. k < 4 \<longrightarrow> file (the_logger st') k = None) \<and>
      (\<forall>k sb. k < 4 \<and> file (the_logger st) k = Some sb \<longrightarrow>
         (\<exists>h. sb_file sb = Some h \<and> h < length (files (the_world st')) \<and>
              written (files (the_world st') ! h) = stream (the_world st) sb \<and>
              \<not> closed (files (the_world st') ! h))) \<and>
      stderr (the_world st') = stderr (the_world st) \<and>
      severityLimit (the_logger st') = severityLimit (the_logger st) \<and>
      the_pool st' = the_pool st)"

text \<open>
  Further environments and states: in \<open>env_closed\<close> no file can be opened, in
  \<open>env_error_only\<close> only the ERROR file of the default names at the time of the clock;
  \<open>debug_state\<close> is a logger with a Debug sink that buffers \<^verbatim>\<open>pending\<close> on a file
  holding \<^verbatim>\<open>previous\<close>.
\<close>

definition env_closed :: env where
  "env_closed = env0\<lparr>openable := (\<lambda>_. False)\<rparr>"

definition env_error_only :: env where
  "env_error_only = env0\<lparr>openable := (\<lambda>p. p = ''/srv/log/app.ERROR.20240102-030405.42.log'')\<rparr>"

definition debug_state :: state where
  "debug_state =
     \<lparr>the_logger = init_logger
        \<lparr>file := (\<lambda>k. if k = 0
                       then Some \<lparr>Writer = Some \<lparr>wr = 0, buf = ''pending'', err = False\<rparr>,
                                  sb_file = Some 0, sev = 0, nbytes = 15\<rparr>
                       else None),
         logDir := ''/srv/log'', logName := ''app''\<rparr>,
      the_pool = init_pool,
      the_world = init_world
        \<lparr>files := [\<lparr>path = ''/srv/log/app.DEBUG.20240102-030405.42.log'',
                    written = ''previous'', closed = False\<rparr>]\<rparr>\<rparr>"





section \<open>Verification\<close>

lemmas severity_defs =
  SeverityDebug_def SeverityInfo_def SeverityWarning_def SeverityError_def severityCount_def

subsection \<open>The buffer pool\<close>

declare pool_step.simps [simp del]

lemma run_simps [simp]:
  "run bp [] = bp" "run bp (x # ops) = run (pool_step bp x) ops"
  "run bp (ops @ ops') = run (run bp ops) ops'"
  by (simp_all add: run_def)

lemma handed_out_append:
  "handed_out bp (ops @ ops') = handed_out bp ops @ handed_out (run bp ops) ops'"
proof (induction ops arbitrary: bp)
  case Nil
  then show ?case by simp
next
  case (Cons x ops)
  then show ?case by (cases x) simp_all
qed

lemma well_used_append:
  "well_used bp out (ops @ ops') =
     (well_used bp out ops \<and> well_used (run bp ops) (owned bp out ops) ops')"
proof (induction ops arbitrary: bp out)
  case Nil
  then show ?case by simp
next
  case (Cons x ops)
  then show ?case by (cases x) simp_all
qed

lemma chain_upd: "a \<notin> set xs \<Longrightarrow> chain (h(a := v)) start xs = chain h start xs"
proof (induction xs arbitrary: start)
  case Nil
  then show ?case by (cases start) simp_all
next
  case (Cons y ys)
  then show ?case by (cases start) auto
qed

lemma chain_head:
  "chain h start xs \<Longrightarrow> start = (case xs of [] \<Rightarrow> None | x # ys \<Rightarrow> Some x)"
  by (cases start; cases xs) simp_all

text \<open>The steps of the pool keep the invariant.\<close>

lemma getBuffer_inv:
  assumes i: "pool_inv bp out xs G"
  shows "pool_inv (snd (getBuffer bp)) (insert (fst (getBuffer bp)) out) (tl xs) G \<and>
         fst (getBuffer bp) = (case xs of [] \<Rightarrow> nalloc bp | x # ys \<Rightarrow> x) \<and>
         fst (getBuffer bp) \<notin> G"
proof (cases xs)
  case Nil
  with i have fl: "freeList bp = None" by (auto simp: pool_inv_def dest: chain_head)
  with i Nil show ?thesis
    by (auto simp: pool_inv_def getBuffer_def less_Suc_eq)
next
  case (Cons x ys)
  with i have c0: "chain (heap bp) (freeList bp) (x # ys)" and d: "x \<notin> set ys" "distinct ys"
    by (auto simp: pool_inv_def)
  from chain_head [OF c0] have fl: "freeList bp = Some x" by simp
  with c0 have ch: "chain (heap bp) (next (heap bp x)) ys" by simp
  have "chain ((heap bp)(x := (heap bp x)\<lparr>next := None, Buffer := []\<rparr>)) (next (heap bp x)) ys"
    using ch d by (simp add: chain_upd)
  with i Cons fl d show ?thesis
    by (auto simp: pool_inv_def getBuffer_def Let_def)
qed

lemma Append_inv:
  assumes i: "pool_inv bp out xs G" and a: "a \<in> out"
  shows "pool_inv (pool_step bp (Append a p)) out xs G"
proof -
  from i a have "a \<notin> set xs" by (auto simp: pool_inv_def)
  with i show ?thesis
    by (simp add: pool_inv_def pool_step.simps chain_upd)
qed

lemma putBuffer_inv:
  assumes i: "pool_inv bp out xs G" and a: "a \<in> out"
  shows "512 \<le> length (Buffer (heap bp a)) \<Longrightarrow> putBuffer bp a = bp"
    and "512 \<le> length (Buffer (heap bp a)) \<Longrightarrow>
         pool_inv (putBuffer bp a) (out - {a}) xs (insert a G)"
    and "\<not> 512 \<le> length (Buffer (heap bp a)) \<Longrightarrow>
         pool_inv (putBuffer bp a) (out - {a}) (a # xs) G"
proof -
  show "putBuffer bp a = bp" if "512 \<le> length (Buffer (heap bp a))"
    using that by (simp add: putBuffer_def)
  show "pool_inv (putBuffer bp a) (out - {a}) xs (insert a G)"
    if "512 \<le> length (Buffer (heap bp a))"
    using that i a by (auto simp: pool_inv_def putBuffer_def)
  show "pool_inv (putBuffer bp a) (out - {a}) (a # xs) G"
    if f: "\<not> 512 \<le> length (Buffer (heap bp a))"
  proof -
    from i a have n: "a \<notin> set xs" by (auto simp: pool_inv_def)
    from i have "chain (heap bp) (freeList bp) xs" by (simp add: pool_inv_def)
    with n have "chain ((heap bp)(a := (heap bp a)\<lparr>next := freeList bp\<rparr>)) (freeList bp) xs"
      by (simp add: chain_upd)
    with i a n f show ?thesis
      by (auto simp: pool_inv_def putBuffer_def)
  qed
qed

text \<open>
  Over a run: the invariant is kept, no dropped buffer is handed out, and a buffer in the
  free list is handed out or still in the free list.
\<close>

lemma inv_not_handed:
  "pool_inv bp out xs G \<Longrightarrow> well_used bp out ops \<Longrightarrow> b \<in> G \<Longrightarrow>
   b \<notin> set (handed_out bp ops)"
proof (induction ops arbitrary: bp out xs G)
  case Nil
  then show ?case by simp
next
  case (Cons x ops)
  show ?case
  proof (cases x)
    case Acquire
    note g = getBuffer_inv [OF Cons.prems(1)]
    from g Cons.prems(3) have ne: "fst (getBuffer bp) \<noteq> b" by auto
    from Cons.prems(2) Acquire
    have w: "well_used (snd (getBuffer bp)) (insert (fst (getBuffer bp)) out) ops"
      by (simp add: pool_step.simps)
    from Cons.IH [OF g [THEN conjunct1] w Cons.prems(3)] ne Acquire show ?thesis
      by (simp add: pool_step.simps)
  next
    case (Append a p)
    with Cons.prems(2) have a: "a \<in> out" and w: "well_used (pool_step bp (Append a p)) out ops"
      by simp_all
    from Cons.IH [OF Append_inv [OF Cons.prems(1) a] w Cons.prems(3)] Append show ?thesis
      by simp
  next
    case (Release a)
    with Cons.prems(2) have a: "a \<in> out" and w: "well_used (putBuffer bp a) (out - {a}) ops"
      by (simp_all add: pool_step.simps)
    note p = putBuffer_inv [OF Cons.prems(1) a]
    have "b \<notin> set (handed_out (putBuffer bp a) ops)"
    proof (cases "512 \<le> length (Buffer (heap bp a))")
      case True
      from p(2) [OF True] have "pool_inv (putBuffer bp a) (out - {a}) xs (insert a G)" .
      from Cons.IH [OF this w] Cons.prems(3) show ?thesis by simp
    next
      case False
      from p(3) [OF False] have "pool_inv (putBuffer bp a) (out - {a}) (a # xs) G" .
      from Cons.IH [OF this w Cons.prems(3)] show ?thesis .
    qed
    with Release show ?thesis by (simp add: pool_step.simps)
  qed
qed

lemma inv_run:
  "pool_inv bp out xs G \<Longrightarrow> well_used bp out ops \<Longrightarrow>
   \<exists>xs' G'. pool_inv (run bp ops) (owned bp out ops) xs' G'"
proof (induction ops arbitrary: bp out xs G)
  case Nil
  then show ?case by auto
next
  case (Cons x ops)
  show ?case
  proof (cases x)
    case Acquire
    note g = getBuffer_inv [OF Cons.prems(1)]
    from Cons.prems(2) Acquire
    have w: "well_used (snd (getBuffer bp)) (insert (fst (getBuffer bp)) out) ops"
      by (simp add: pool_step.simps)
    from Cons.IH [OF g [THEN conjunct1] w] Acquire show ?thesis
      by (simp add: pool_step.simps)
  next
    case (Append a p)
    with Cons.prems(2) have a: "a \<in> out" and w: "well_used (pool_step bp (Append a p)) out ops"
      by simp_all
    from Cons.IH [OF Append_inv [OF Cons.prems(1) a] w] Append show ?thesis
      by simp
  next
    case (Release a)
    with Cons.prems(2) have a: "a \<in> out" and w: "well_used (putBuffer bp a) (out - {a}) ops"
      by (simp_all add: pool_step.simps)
    note p = putBuffer_inv [OF Cons.prems(1) a]
    have "\<exists>xs' G'. pool_inv (run (putBuffer bp a) ops) (owned (putBuffer bp a) (out - {a}) ops) xs' G'"
    proof (cases "512 \<le> length (Buffer (heap bp a))")
      case True
      from p(2) [OF True] have "pool_inv (putBuffer bp a) (out - {a}) xs (insert a G)" .
      from Cons.IH [OF this w] show ?thesis .
    next
      case False
      from p(3) [OF False] have "pool_inv (putBuffer bp a) (out - {a}) (a # xs) G" .
      from Cons.IH [OF this w] show ?thesis .
    qed
    with Release show ?thesis by (simp add: pool_step.simps)
  qed
qed

lemma inv_kept_or_handed:
  "pool_inv bp out xs G \<Longrightarrow> well_used bp out ops \<Longrightarrow> b \<in> set xs \<Longrightarrow>
   b \<in> set (handed_out bp ops) \<or>
   (\<exists>out' xs' G'. pool_inv (run bp ops) out' xs' G' \<and> b \<in> set xs')"
proof (induction ops arbitrary: bp out xs G)
  case Nil
  then show ?case by auto
next
  case (Cons x ops)
  show ?case
  proof (cases x)
    case Acquire
    note g = getBuffer_inv [OF Cons.prems(1)]
    from Cons.prems(2) Acquire
    have w: "well_used (snd (getBuffer bp)) (insert (fst (getBuffer bp)) out) ops"
      by (simp add: pool_step.simps)
    show ?thesis
    proof (cases "fst (getBuffer bp) = b")
      case True
      with Acquire show ?thesis by simp
    next
      case False
      with g Cons.prems(3) have "b \<in> set (tl xs)" by (cases xs) auto
      from Cons.IH [OF g [THEN conjunct1] w this] Acquire show ?thesis
        by (simp add: pool_step.simps)
    qed
  next
    case (Append a p)
    with Cons.prems(2) have a: "a \<in> out" and w: "well_used (pool_step bp (Append a p)) out ops"
      by simp_all
    from Cons.IH [OF Append_inv [OF Cons.prems(1) a] w Cons.prems(3)] Append show ?thesis
      by simp
  next
    case (Release a)
    with Cons.prems(2) have a: "a \<in> out" and w: "well_used (putBuffer bp a) (out - {a}) ops"
      by (simp_all add: pool_step.simps)
    note p = putBuffer_inv [OF Cons.prems(1) a]
    have "b \<in> set (handed_out (putBuffer bp a) ops) \<or>
      (\<exists>out' xs' G'. pool_inv (run (putBuffer bp a) ops) out' xs' G' \<and> b \<in> set xs')"
    proof (cases "512 \<le> length (Buffer (heap bp a))")
      case True
      from p(2) [OF True] have "pool_inv (putBuffer bp a) (out - {a}) xs (insert a G)" .
      from Cons.IH [OF this w Cons.prems(3)] show ?thesis .
    next
      case False
      from p(3) [OF False] have i: "pool_inv (putBuffer bp a) (out - {a}) (a # xs) G" .
      from Cons.prems(3) have "b \<in> set (a # xs)" by simp
      from Cons.IH [OF i w this] show ?thesis .
    qed
    with Release show ?thesis by (simp add: pool_step.simps)
  qed
qed

lemma inv_drained:
  "pool_inv bp out xs G \<Longrightarrow> b \<in> set xs \<Longrightarrow>
   \<exists>n. b \<in> set (handed_out bp (replicate n Acquire))"
proof (induction xs arbitrary: bp out)
  case Nil
  then show ?case by simp
next
  case (Cons x xs)
  note g = getBuffer_inv [OF Cons.prems(1)]
  show ?case
  proof (cases "x = b")
    case True
    with g have "b \<in> set (handed_out bp (replicate 1 Acquire))" by simp
    then show ?thesis by blast
  next
    case False
    with Cons.prems(2) have "b \<in> set xs" by simp
    from Cons.IH [OF _ this, of "snd (getBuffer bp)" "insert (fst (getBuffer bp)) out"] g
    obtain n where "b \<in> set (handed_out (snd (getBuffer bp)) (replicate n Acquire))" by auto
    then have "b \<in> set (handed_out bp (replicate (Suc n) Acquire))"
      by (simp add: pool_step.simps)
    then show ?thesis by blast
  qed
qed

lemma init_inv: "pool_inv init_pool {} [] {}"
  by (simp add: pool_inv_def init_pool_def)

lemma getBuffer_empty: "Buffer (heap (snd (getBuffer bp)) (fst (getBuffer bp))) = []"
  by (simp add: getBuffer_def new_buffer_def Let_def split: option.splits)

lemma owned_handed: "owned bp out ops \<subseteq> out \<union> set (handed_out bp ops)"
proof (induction ops arbitrary: bp out)
  case Nil
  then show ?case by simp
next
  case (Cons x ops)
  show ?case
  proof (cases x)
    case Acquire
    with Cons [of "pool_step bp Acquire" "insert (fst (getBuffer bp)) out"] show ?thesis by auto
  next
    case (Append a p)
    with Cons [of "pool_step bp (Append a p)" out] show ?thesis by auto
  next
    case (Release a)
    with Cons [of "pool_step bp (Release a)" "out - {a}"] show ?thesis by auto
  qed
qed

text \<open>
  Claim C7. Take any run of the pool from its initial state in which the callers append to
  and release only buffers they hold, and a release of \<open>b\<close> in it. The buffer \<open>b\<close> was
  handed out by \<^verbatim>\<open>getBuffer\<close> before. If its content has 512 bytes or more,
  \<^verbatim>\<open>putBuffer\<close> leaves the pool as it was and no later \<^verbatim>\<open>getBuffer\<close> of the run
  returns \<open>b\<close>. If its content has fewer than 512 bytes, the next \<^verbatim>\<open>getBuffer\<close> would
  return \<open>b\<close>, and however the run goes on, \<open>b\<close> is handed out in it or by one of the
  calls of \<^verbatim>\<open>getBuffer\<close> that follow it. Every buffer that \<^verbatim>\<open>getBuffer\<close> returns has
  empty content.
\<close>

theorem C7_pool_recycling:
  assumes ok: "well_used init_pool {} (ops1 @ Release b # ops2)"
  shows "b \<in> set (handed_out init_pool ops1) \<and>
         (if 512 \<le> length (Buffer (heap (run init_pool ops1) b))
          then run init_pool (ops1 @ [Release b]) = run init_pool ops1 \<and>
               b \<notin> set (handed_out (run init_pool (ops1 @ [Release b])) ops2)
          else fst (getBuffer (run init_pool (ops1 @ [Release b]))) = b \<and>
               (\<exists>n. b \<in> set (handed_out (run init_pool (ops1 @ [Release b]))
                                 (ops2 @ replicate n Acquire)))) \<and>
         Buffer (heap (snd (getBuffer bp)) (fst (getBuffer bp))) = []"
proof -
  let ?bp = "run init_pool ops1"
  let ?out = "owned init_pool {} ops1"
  from ok have w1: "well_used init_pool {} ops1" and b: "b \<in> ?out"
    and w2: "well_used (putBuffer ?bp b) (?out - {b}) ops2"
    by (simp_all add: well_used_append pool_step.simps)
  from inv_run [OF init_inv w1] obtain xs G where i: "pool_inv ?bp ?out xs G" by blast
  note p = putBuffer_inv [OF i b]
  have r: "run init_pool (ops1 @ [Release b]) = putBuffer ?bp b"
    by (simp add: pool_step.simps)
  from b owned_handed [of init_pool "{}" ops1] have first: "b \<in> set (handed_out init_pool ops1)"
    by auto
  have second: "if 512 \<le> length (Buffer (heap ?bp b))
          then run init_pool (ops1 @ [Release b]) = ?bp \<and>
               b \<notin> set (handed_out (run init_pool (ops1 @ [Release b])) ops2)
          else fst (getBuffer (run init_pool (ops1 @ [Release b]))) = b \<and>
               (\<exists>n. b \<in> set (handed_out (run init_pool (ops1 @ [Release b]))
                                 (ops2 @ replicate n Acquire)))"
  proof (cases "512 \<le> length (Buffer (heap ?bp b))")
    case True
    from p(1,2) [OF True] have e: "putBuffer ?bp b = ?bp"
      and j: "pool_inv (putBuffer ?bp b) (?out - {b}) xs (insert b G)" .
    from inv_not_handed [OF j w2, of b] have "b \<notin> set (handed_out (putBuffer ?bp b) ops2)"
      by simp
    with True e show ?thesis unfolding r by simp
  next
    case False
    from p(3) [OF False] have j: "pool_inv (putBuffer ?bp b) (?out - {b}) (b # xs) G" .
    from getBuffer_inv [OF j] have h: "fst (getBuffer (putBuffer ?bp b)) = b" by simp
    have "\<exists>n. b \<in> set (handed_out (putBuffer ?bp b) (ops2 @ replicate n Acquire))"
    proof -
      from inv_kept_or_handed [OF j w2, of b] consider
        "b \<in> set (handed_out (putBuffer ?bp b) ops2)" |
        out' xs' G' where "pool_inv (run (putBuffer ?bp b) ops2) out' xs' G'" "b \<in> set xs'"
        by auto
      then show ?thesis
      proof cases
        case 1
        then have "b \<in> set (handed_out (putBuffer ?bp b) (ops2 @ replicate 0 Acquire))" by simp
        then show ?thesis by blast
      next
        case 2
        from inv_drained [OF 2] obtain n where
          "b \<in> set (handed_out (run (putBuffer ?bp b) ops2) (replicate n Acquire))" by blast
        then have "b \<in> set (handed_out (putBuffer ?bp b) (ops2 @ replicate n Acquire))"
          by (simp add: handed_out_append)
        then show ?thesis by blast
      qed
    qed
    with False h show ?thesis unfolding r by simp
  qed
  from first second getBuffer_empty show ?thesis by blast
qed

lemmas pool_eval = pool_step.simps getBuffer_def putBuffer_def init_pool_def buffer_Write_def
  new_buffer_def Let_def

theorem C7_pool_recycling_witness:
  "well_used init_pool {}
     ([Acquire, Release 0, Acquire, Append 0 (replicate 600 (CHR ''x''))] @ Release 0 # [Acquire]) \<and>
   512 \<le> length (Buffer (heap (run init_pool
            [Acquire, Release 0, Acquire, Append 0 (replicate 600 (CHR ''x''))]) 0)) \<and>
   0 \<notin> set (handed_out (run init_pool
            ([Acquire, Release 0, Acquire, Append 0 (replicate 600 (CHR ''x''))] @ [Release 0]))
          [Acquire]) \<and>
   handed_out init_pool
     [Acquire, Release 0, Acquire, Append 0 (replicate 600 (CHR ''x'')), Release 0, Acquire]
     = [0, 0, 1] \<and>
   well_used init_pool {} ([Acquire, Acquire, Append 0 ''abc''] @ Release 0 # [Release 1, Acquire]) \<and>
   \<not> 512 \<le> length (Buffer (heap (run init_pool [Acquire, Acquire, Append 0 ''abc'']) 0)) \<and>
   fst (getBuffer (run init_pool ([Acquire, Acquire, Append 0 ''abc''] @ [Release 0]))) = 0 \<and>
   handed_out init_pool
     [Acquire, Acquire, Append 0 ''abc'', Release 0, Release 1, Acquire, Acquire, Acquire]
     = [0, 1, 1, 0, 2] \<and>
   Buffer (heap (snd (getBuffer (run init_pool ([Acquire, Acquire, Append 0 ''abc''] @ [Release 0]))))
             0) = []"
proof -
  let ?big = "[Acquire, Release 0, Acquire, Append 0 (replicate 600 (CHR ''x''))]"
  let ?small = "[Acquire, Acquire, Append 0 ''abc'']"
  have w1: "well_used init_pool {} (?big @ Release 0 # [Acquire])"
    by (simp add: pool_eval)
  have b1: "512 \<le> length (Buffer (heap (run init_pool ?big) 0))"
    by (simp add: pool_eval)
  have w2: "well_used init_pool {} (?small @ Release 0 # [Release 1, Acquire])"
    by (simp add: pool_eval)
  have b2: "\<not> 512 \<le> length (Buffer (heap (run init_pool ?small) 0))"
    by (simp add: pool_eval)
  note t1 = C7_pool_recycling [OF w1, THEN conjunct2, THEN conjunct1, unfolded if_P [OF b1]]
  note t2 = C7_pool_recycling [OF w2, THEN conjunct2, THEN conjunct1, unfolded if_not_P [OF b2]]
  note t3 = C7_pool_recycling [OF w2, THEN conjunct2, THEN conjunct2,
      of "run init_pool (?small @ [Release 0])"]
  from t1 have a: "0 \<notin> set (handed_out (run init_pool (?big @ [Release 0])) [Acquire])"
    by (rule conjunct2)
  from t2 have c: "fst (getBuffer (run init_pool (?small @ [Release 0]))) = 0"
    by (rule conjunct1)
  from t3 have d: "Buffer (heap (snd (getBuffer (run init_pool (?small @ [Release 0])))) 0) = []"
    unfolding c .
  have e: "handed_out init_pool
     [Acquire, Release 0, Acquire, Append 0 (replicate 600 (CHR ''x'')), Release 0, Acquire]
     = [0, 0, 1]"
    by (simp add: pool_eval)
  have f: "handed_out init_pool
     [Acquire, Acquire, Append 0 ''abc'', Release 0, Release 1, Acquire, Acquire, Acquire]
     = [0, 1, 1, 0, 2]"
    by (simp add: pool_eval)
  from w1 b1 a e w2 b2 c d f show ?thesis
    by (simp only: simp_thms)
qed

subsection \<open>The maximum file size\<close>

text \<open>
  Claim C10. After \<^verbatim>\<open>SetMaxSize(0)\<close> the next \<^verbatim>\<open>getMaxSize\<close> returns 4 MiB and stores it,
  so that later reads return it too; \<^verbatim>\<open>getMaxSize\<close> never returns 0 for any logger; and
  the rotation test of a sink then compares against 4 MiB.
\<close>

theorem C10_zero_max_size:
  "fst (getMaxSize (SetMaxSize l 0)) = 4194304 \<and>
   maxSize (snd (getMaxSize (SetMaxSize l 0))) = 4194304 \<and>
   getMaxSize (snd (getMaxSize (SetMaxSize l 0))) = (4194304, snd (getMaxSize (SetMaxSize l 0))) \<and>
   fst (getMaxSize l') \<noteq> 0 \<and>
   rotates (SetMaxSize l 0) sb p = (nbytes sb + of_nat (length p) \<ge> 4194304)"
  by (simp add: getMaxSize_def SetMaxSize_def rotates_def Let_def)

subsection \<open>Header formatting\<close>

declare nDigits_pad.simps [simp del] nDigits_digits.simps [simp del] someDigits_loop.simps [simp del] createFiles_loop.simps [simp del]

lemma go_quot_nonneg: "0 \<le> d \<Longrightarrow> go_quot d 10 = d div 10"
  by (cases "d = 0") (simp_all add: go_quot_def)

lemma go_rem_nonneg: "0 \<le> d \<Longrightarrow> go_rem d 10 = d mod 10"
  by (simp add: go_rem_def go_quot_nonneg minus_mult_div_eq_mod)

lemma digits_at_mod: "0 \<le> d \<Longrightarrow> digits_at (d mod 10) = Some (digits ! (nat d mod 10))"
  by (simp add: digits_at_def digits_def nat_mod_distrib)

lemma tmp_set_ok:
  "0 \<le> i \<Longrightarrow> i < 64 \<Longrightarrow>
   tmp_set \<lparr>Buffer = x, tmp = y, next = z\<rparr> i c = Some \<lparr>Buffer = x, tmp = y(nat i := c), next = z\<rparr>"
  by (simp add: tmp_set_def tmp_len_def)

lemma twoDigits_ok:
  "0 \<le> d \<Longrightarrow> 0 \<le> i \<Longrightarrow> i < 63 \<Longrightarrow>
   twoDigits \<lparr>Buffer = x, tmp = y, next = z\<rparr> i d =
     Some \<lparr>Buffer = x,
           tmp = y(nat i + 1 := digits ! (nat d mod 10), nat i := digits ! (nat d div 10 mod 10)),
           next = z\<rparr>"
  by (simp add: twoDigits_def go_rem_nonneg go_quot_nonneg digits_at_mod tmp_set_ok
        nat_add_distrib nat_div_distrib)

lemma nDigits_pad_done [simp]: "nDigits_pad b i (- 1) pad = Some b"
  by (subst nDigits_pad.simps) simp

lemma nDigits_digits_done [simp]: "nDigits_digits b i (- 1) d = Some (b, - 1)"
  by (subst nDigits_digits.simps) simp

lemma nDigits_digits_zero [simp]: "nDigits_digits b i j 0 = Some (b, j)"
  by (subst nDigits_digits.simps) simp

lemma nDigits_pad_zero:
  "i + n \<le> 64 \<Longrightarrow>
   nDigits_pad \<lparr>Buffer = x, tmp = y, next = z\<rparr> (int i) (int n - 1) (CHR ''0'')
     = Some \<lparr>Buffer = x, tmp = put_digits y i n 0, next = z\<rparr>"
proof (induction n arbitrary: y)
  case 0
  then show ?case by simp
next
  case (Suc n)
  have ts: "tmp_set \<lparr>Buffer = x, tmp = y, next = z\<rparr> (int i + int n) (CHR ''0'')
      = Some \<lparr>Buffer = x, tmp = y(i + n := CHR ''0''), next = z\<rparr>"
    using Suc.prems tmp_set_ok [of "int i + int n" x y z "CHR ''0''"] by (simp add: nat_add_distrib)
  have ih: "nDigits_pad \<lparr>Buffer = x, tmp = y(i + n := CHR ''0''), next = z\<rparr> (int i) (int n - 1) (CHR ''0'')
     = Some \<lparr>Buffer = x, tmp = put_digits (y(i + n := CHR ''0'')) i n 0, next = z\<rparr>"
    using Suc.prems by (intro Suc.IH) simp
  show ?case
    by (subst nDigits_pad.simps) (simp add: digits_def ts ih)
qed

lemma nDigits_ok:
  "0 \<le> d \<Longrightarrow> i + n \<le> 64 \<Longrightarrow>
   nDigits \<lparr>Buffer = x, tmp = y, next = z\<rparr> (int n) (int i) d (CHR ''0'')
     = Some \<lparr>Buffer = x, tmp = put_digits y i n (nat d), next = z\<rparr>"
proof (induction n arbitrary: y d)
  case 0
  then show ?case by (simp add: nDigits_def)
next
  case (Suc n)
  show ?case
  proof (cases "d = 0")
    case True
    then show ?thesis
      using nDigits_pad_zero [of i "Suc n" x y z] Suc.prems
      by (simp add: nDigits_def)
  next
    case False
    with Suc.prems have pos: "d > 0" by simp
    let ?c = "digits ! (nat d mod 10)"
    have ts: "tmp_set \<lparr>Buffer = x, tmp = y, next = z\<rparr> (int i + int n) ?c
        = Some \<lparr>Buffer = x, tmp = y(i + n := ?c), next = z\<rparr>"
      using Suc.prems tmp_set_ok [of "int i + int n" x y z] by (simp add: nat_add_distrib)
    have ih: "nDigits \<lparr>Buffer = x, tmp = y(i + n := ?c), next = z\<rparr> (int n) (int i) (d div 10) (CHR ''0'')
        = Some \<lparr>Buffer = x, tmp = put_digits (y(i + n := ?c)) i n (nat (d div 10)), next = z\<rparr>"
      using Suc.prems by (intro Suc.IH) simp_all
    have "nDigits \<lparr>Buffer = x, tmp = y, next = z\<rparr> (int (Suc n)) (int i) d (CHR ''0'')
       = nDigits \<lparr>Buffer = x, tmp = y(i + n := ?c), next = z\<rparr> (int n) (int i) (d div 10) (CHR ''0'')"
      using pos Suc.prems
      by (subst nDigits_def, subst nDigits_digits.simps)
         (simp add: go_rem_nonneg go_quot_nonneg digits_at_mod ts nDigits_def)
    then show ?thesis
      using ih Suc.prems by (simp add: nat_div_distrib)
  qed
qed

lemma someDigits_loop_ok:
  "length (dec_nat d) \<le> j \<Longrightarrow> j \<le> 64 \<Longrightarrow>
   \<exists>y'. someDigits_loop \<lparr>Buffer = x, tmp = y, next = z\<rparr> (int j) (int d)
          = Some (\<lparr>Buffer = x, tmp = y', next = z\<rparr>, int (j - length (dec_nat d))) \<and>
        map y' [j - length (dec_nat d)..<j] = dec_nat d \<and>
        (\<forall>k. k < j - length (dec_nat d) \<or> j \<le> k \<longrightarrow> y' k = y k)"
proof (induction d arbitrary: j y rule: less_induct)
  case (less d)
  from less.prems have jpos: "0 < j"
    by (subst (asm) dec_nat.simps) (auto split: if_splits)
  let ?c = "digits ! (d mod 10)"
  have ts: "tmp_set \<lparr>Buffer = x, tmp = y, next = z\<rparr> (int j - 1) ?c
      = Some \<lparr>Buffer = x, tmp = y(j - 1 := ?c), next = z\<rparr>"
    using less.prems jpos tmp_set_ok [of "int j - 1" x y z ?c] by (simp add: nat_diff_distrib)
  have dg: "digits_at (go_rem (int d) 10) = Some ?c"
    using digits_at_mod [of "int d"] by (simp add: go_rem_nonneg)
  show ?case
  proof (cases "d < 10")
    case True
    then have dn: "dec_nat d = [?c]" by (subst dec_nat.simps) simp
    from True have q: "go_quot (int d) 10 = 0" by (simp add: go_quot_nonneg)
    have "someDigits_loop \<lparr>Buffer = x, tmp = y, next = z\<rparr> (int j) (int d)
        = Some (\<lparr>Buffer = x, tmp = y(j - 1 := ?c), next = z\<rparr>, int j - 1)"
      by (subst someDigits_loop.simps) (simp add: dg ts q)
    then show ?thesis
      using jpos dn by (intro exI [of _ "y(j - 1 := ?c)"]) (auto simp: upt_conv_Cons of_nat_diff)
  next
    case False
    then have dn: "dec_nat d = dec_nat (d div 10) @ [?c]" by (subst dec_nat.simps) simp
    from False have q: "go_quot (int d) 10 = int (d div 10)" "d div 10 \<noteq> 0"
      by (simp_all add: go_quot_nonneg zdiv_int)
    from less.prems dn have len: "length (dec_nat (d div 10)) \<le> j - 1" by simp
    from False have lt: "d div 10 < d" by simp
    from less.prems have jle: "j - 1 \<le> 64" by simp
    from less.IH [OF lt len jle, of "y(j - 1 := ?c)"]
    obtain y' where
      r: "someDigits_loop \<lparr>Buffer = x, tmp = y(j - 1 := ?c), next = z\<rparr> (int (j - 1)) (int (d div 10))
            = Some (\<lparr>Buffer = x, tmp = y', next = z\<rparr>, int (j - 1 - length (dec_nat (d div 10))))"
      and m: "map y' [j - 1 - length (dec_nat (d div 10))..<j - 1] = dec_nat (d div 10)"
      and o: "\<forall>k. k < j - 1 - length (dec_nat (d div 10)) \<or> j - 1 \<le> k \<longrightarrow> y' k = (y(j - 1 := ?c)) k"
      by blast
    have "someDigits_loop \<lparr>Buffer = x, tmp = y, next = z\<rparr> (int j) (int d)
        = someDigits_loop \<lparr>Buffer = x, tmp = y(j - 1 := ?c), next = z\<rparr> (int (j - 1)) (int (d div 10))"
      using jpos q by (subst someDigits_loop.simps) (simp add: dg ts of_nat_diff)
    with r have r': "someDigits_loop \<lparr>Buffer = x, tmp = y, next = z\<rparr> (int j) (int d)
        = Some (\<lparr>Buffer = x, tmp = y', next = z\<rparr>, int (j - length (dec_nat d)))"
      using dn by simp
    have last: "y' (j - 1) = ?c" using o by simp
    have "[j - length (dec_nat d)..<j] = [j - 1 - length (dec_nat (d div 10))..<j - 1] @ [j - 1]"
      using jpos len dn by (simp add: upt_Suc_append [symmetric] del: upt_Suc)
    then have m': "map y' [j - length (dec_nat d)..<j] = dec_nat d"
      using m last dn by simp
    have o': "\<forall>k. k < j - length (dec_nat d) \<or> j \<le> k \<longrightarrow> y' k = y k"
      using o dn jpos by auto
    show ?thesis
      using r' m' o' by blast
  qed
qed


lemma dec_nat_length: "0 < k \<Longrightarrow> d < 10 ^ k \<Longrightarrow> length (dec_nat d) \<le> k"
proof (induction k arbitrary: d)
  case 0
  then show ?case by simp
next
  case (Suc k)
  show ?case
  proof (cases "d < 10")
    case True
    then show ?thesis by (subst dec_nat.simps) simp
  next
    case False
    with Suc.prems have k: "0 < k" by (cases k) auto
    from Suc.prems have "d div 10 < 10 ^ k" by (simp add: less_mult_imp_div_less mult.commute)
    from Suc.IH [OF k this] False show ?thesis by (subst dec_nat.simps) simp
  qed
qed

lemma dec_nat_nonempty: "dec_nat d \<noteq> []"
  by (subst dec_nat.simps) simp

lemma someDigits_eq:
  assumes "length (dec_nat d) \<le> 63"
  shows "someDigits \<lparr>Buffer = x, tmp = y, next = z\<rparr> 1 (int d)
           = Some (\<lparr>Buffer = x, tmp = some_tmp y d, next = z\<rparr>, int (length (dec_nat d)))"
proof -
  let ?n = "length (dec_nat d)"
  from assms have "?n \<le> 64" by simp
  from someDigits_loop_ok [OF this, of x y z]
  obtain y' where
    r: "someDigits_loop \<lparr>Buffer = x, tmp = y, next = z\<rparr> (int 64) (int d)
          = Some (\<lparr>Buffer = x, tmp = y', next = z\<rparr>, int (64 - ?n))"
    and m: "map y' [64 - ?n..<64] = dec_nat d"
    and o: "\<forall>k. k < 64 - ?n \<or> 64 \<le> k \<longrightarrow> y' k = y k"
    by blast
  have nth: "y' k = dec_nat d ! (k - (64 - ?n))" if "64 - ?n \<le> k" "k < 64" for k
  proof -
    from that have "map y' [64 - ?n..<64] ! (k - (64 - ?n)) = y' k" by simp
    with m show ?thesis by simp
  qed
  have mn: "min 63 (64 - (64 - ?n)) = ?n" using assms by simp
  have step: "someDigits \<lparr>Buffer = x, tmp = y, next = z\<rparr> 1 (int d)
      = Some (\<lparr>Buffer = x,
               tmp = (\<lambda>k. if 1 \<le> k \<and> k < 1 + ?n then y' (64 - ?n + (k - 1)) else y' k),
               next = z\<rparr>, int ?n)"
  proof -
    have n64: "?n \<le> 64" using assms by simp
    have nn: "nat (64 - int ?n) = 64 - ?n" by arith
    have mn': "64 - (64 - ?n) = ?n" using n64 by simp
    show ?thesis
      using r n64 assms by (auto simp: someDigits_def tmp_len_def Let_def nn mn' intro!: ext)
  qed
  have fe: "(\<lambda>k. if 1 \<le> k \<and> k < 1 + ?n then y' (64 - ?n + (k - 1)) else y' k) = some_tmp y d"
  proof (rule ext)
    fix k
    show "(if 1 \<le> k \<and> k < 1 + ?n then y' (64 - ?n + (k - 1)) else y' k) = some_tmp y d k"
      using assms o nth [of k] nth [of "64 - ?n + (k - 1)"]
      by (auto simp: some_tmp_def Let_def)
  qed
  show ?thesis
    by (simp only: step fe)
qed

lemma lsd_zero: "lsd k 0 = replicate k (CHR ''0'')"
  by (induction k) (simp_all add: digits_def replicate_append_same)

lemma zpad_lsd: "0 < k \<Longrightarrow> n < 10 ^ k \<Longrightarrow> zpad k n = lsd k n"
proof (induction k arbitrary: n)
  case 0
  then show ?case by simp
next
  case (Suc k)
  show ?case
  proof (cases "n < 10")
    case True
    then show ?thesis
      by (simp add: zpad_def dec_nat.simps [of n] lsd_zero)
  next
    case False
    with Suc.prems have k: "0 < k" by (cases k) auto
    from Suc.prems have lt: "n div 10 < 10 ^ k" by (simp add: less_mult_imp_div_less mult.commute)
    have dn: "dec_nat n = dec_nat (n div 10) @ [digits ! (n mod 10)]"
      using False by (subst dec_nat.simps) simp
    from Suc.IH [OF k lt] show ?thesis
      by (simp add: zpad_def dn)
  qed
qed

lemma put_digits_frame: "x < i \<or> i + k \<le> x \<Longrightarrow> put_digits y i k n x = y x"
  by (induction k arbitrary: y n) auto

lemma put_digits_lsd: "map (put_digits y i k n) [i..<i + k] = lsd k n"
proof (induction k arbitrary: y n)
  case 0
  then show ?case by simp
next
  case (Suc k)
  have a: "map (put_digits (y(i + k := digits ! (n mod 10))) i k (n div 10)) [i..<i + k]
      = lsd k (n div 10)"
    by (rule Suc.IH)
  have b: "put_digits (y(i + k := digits ! (n mod 10))) i k (n div 10) (i + k) = digits ! (n mod 10)"
    by (simp add: put_digits_frame)
  show ?case
    by (simp add: a b)
qed


lemma tail_bytes:
  assumes "length (dec_nat d) \<le> 19"
  shows "map ((some_tmp (y(0 := CHR '':'')) d)
               (Suc (length (dec_nat d)) := CHR '']'', Suc (Suc (length (dec_nat d))) := CHR '' ''))
             [0..<length (dec_nat d) + 3]
         = '':'' @ dec_nat d @ ''] ''"
proof (rule nth_equalityI)
  show "length (map ((some_tmp (y(0 := CHR '':'')) d)
               (Suc (length (dec_nat d)) := CHR '']'', Suc (Suc (length (dec_nat d))) := CHR '' ''))
             [0..<length (dec_nat d) + 3]) = length ('':'' @ dec_nat d @ ''] '')"
    by simp
next
  fix i
  assume "i < length (map ((some_tmp (y(0 := CHR '':'')) d)
               (Suc (length (dec_nat d)) := CHR '']'', Suc (Suc (length (dec_nat d))) := CHR '' ''))
             [0..<length (dec_nat d) + 3])"
  then have i: "i < length (dec_nat d) + 3" by simp
  consider "i = 0" | "1 \<le> i \<and> i \<le> length (dec_nat d)" | "i = Suc (length (dec_nat d))"
    | "i = Suc (Suc (length (dec_nat d)))"
    using i by linarith
  then show "map ((some_tmp (y(0 := CHR '':'')) d)
               (Suc (length (dec_nat d)) := CHR '']'', Suc (Suc (length (dec_nat d))) := CHR '' ''))
             [0..<length (dec_nat d) + 3] ! i = ('':'' @ dec_nat d @ ''] '') ! i"
  proof cases
    case 1
    then show ?thesis using assms by (simp add: some_tmp_def Let_def)
  next
    case 2
    then show ?thesis using i by (auto simp: some_tmp_def Let_def nth_append nth_Cons')
  next
    case 3
    then show ?thesis using i by (simp add: some_tmp_def Let_def nth_append nth_Cons')
  next
    case 4
    then show ?thesis using i by (simp add: some_tmp_def Let_def nth_append nth_Cons')
  qed
qed

lemma zpad_2: "m < 100 \<Longrightarrow> zpad 2 m = [digits ! (m div 10 mod 10), digits ! (m mod 10)]"
  using zpad_lsd [of 2 m] by (simp add: numeral_2_eq_2)

lemma sev_letter:
  "0 \<le> s \<Longrightarrow>
   severityChar_at (if s \<ge> severityCount then SeverityInfo else s) = Some (severity_letter s)"
proof -
  assume "0 \<le> s"
  then consider "s = 0" | "s = 1" | "s = 2" | "s = 3" | "s \<ge> 4" by linarith
  then show ?thesis
    by cases
       (simp_all add: severityChar_at_def severityChar_def severity_letter_def SeverityDebug_def
          SeverityInfo_def SeverityWarning_def SeverityError_def severityCount_def)
qed

lemma head_bytes:
  assumes "mo < 100" "da < 100" "ho < 100" "mi < 100" "se < 100" "us < 1000000"
  shows "map ((put_digits
                (y(0 := CHR ''['',
                   Suc (Suc 0) := digits ! (mo mod 10), Suc 0 := digits ! (mo div 10 mod 10),
                   3 := CHR ''-'',
                   5 := digits ! (da mod 10), 4 := digits ! (da div 10 mod 10),
                   6 := CHR '' '',
                   8 := digits ! (ho mod 10), 7 := digits ! (ho div 10 mod 10),
                   9 := CHR '':'',
                   11 := digits ! (mi mod 10), 10 := digits ! (mi div 10 mod 10),
                   12 := CHR '':'',
                   14 := digits ! (se mod 10), 13 := digits ! (se div 10 mod 10),
                   15 := CHR ''.''))
                16 6 us)
              (22 := CHR '' '', 23 := c, 24 := CHR '' ''))
           [0..<25]
         = ''['' @ zpad 2 mo @ ''-'' @ zpad 2 da @ '' '' @ zpad 2 ho @ '':'' @ zpad 2 mi @ '':'' @
           zpad 2 se @ ''.'' @ zpad 6 us @ '' '' @ [c] @ '' ''"
    (is "map ?Y [0..<25] = _")
proof -
  have split: "[0..<25] = [0..<16] @ [16..<16 + 6] @ [22..<25]"
    by (simp add: upt_rec)
  have a: "map ?Y [0..<16] = ''['' @ zpad 2 mo @ ''-'' @ zpad 2 da @ '' '' @ zpad 2 ho @ '':'' @
      zpad 2 mi @ '':'' @ zpad 2 se @ ''.''"
    using assms by (simp add: upt_rec zpad_2 put_digits_frame)
  have b: "map ?Y [16..<16 + 6] = zpad 6 us"
    using assms put_digits_lsd [of _ 16 6 us] by (simp add: map_fun_upd zpad_lsd)
  have c: "map ?Y [22..<25] = '' '' @ [c] @ '' ''"
    by (simp add: upt_rec)
  show ?thesis
    unfolding split map_append a b c by simp
qed


lemma getBuffer_fresh:
  "Buffer (heap (snd (getBuffer p)) (fst (getBuffer p))) = [] \<and>
   next (heap (snd (getBuffer p)) (fst (getBuffer p))) = None"
  by (simp add: getBuffer_def new_buffer_def Let_def split: option.splits)

lemmas nDigits_usec = nDigits_ok [where n = 6 and i = 16, simplified]

lemma two63: "(2::int) ^ 63 < 10 ^ 19"
  by simp

lemma formatHeader_ok:
  assumes vt: "valid_time (clock e (tick w))" and s0: "0 \<le> s" and ln: "line < 2 ^ 63"
  shows "\<exists>y'. formatHeader e s fname line pool w =
      Some (fst (getBuffer pool),
            (snd (getBuffer pool))
              \<lparr>heap := (heap (snd (getBuffer pool)))
                 (fst (getBuffer pool) :=
                    \<lparr>Buffer = spec_header (clock e (tick w)) s fname line, tmp = y', next = None\<rparr>)\<rparr>,
            w\<lparr>tick := Suc (tick w)\<rparr>)"
proof -
  obtain a pool1 where gb: "getBuffer pool = (a, pool1)" by (cases "getBuffer pool")
  obtain y0 where b0: "heap pool1 a = \<lparr>Buffer = [], tmp = y0, next = None\<rparr>"
    using getBuffer_fresh [of pool] gb by (cases "heap pool1 a") auto
  define now where "now = clock e (tick w)"
  define d where "d = nat (max 0 line)"
  have line1: "(if line < 0 then 0 else line) = int d" by (simp add: d_def)
  have "int d < 10 ^ 19" using ln two63 by (simp add: d_def)
  then have "d < 10 ^ 19" by (metis of_nat_less_iff of_nat_numeral of_nat_power)
  then have len: "length (dec_nat d) \<le> 19" using dec_nat_length [of 19 d] by simp
  then have len63: "length (dec_nat d) \<le> 63" by simp
  from vt have t: "0 \<le> Month now" "0 \<le> Day now" "0 \<le> Hour now" "0 \<le> Minute now"
      "0 \<le> Second now" "0 \<le> Nanosecond now"
      "nat (Month now) < 100" "nat (Day now) < 100" "nat (Hour now) < 100" "nat (Minute now) < 100"
      "nat (Second now) < 100" "nat (Nanosecond now) div 1000 < 1000000"
    by (auto simp: valid_time_def now_def)
  have us: "go_quot (Nanosecond now) 1000 = int (nat (Nanosecond now) div 1000)"
    using t(6) by (cases "Nanosecond now = 0") (simp_all add: go_quot_def zdiv_int)
  have ts: "\<And>x y z. tmp_set \<lparr>Buffer = x, tmp = y, next = z\<rparr> (int (length (dec_nat d)) + 1) (CHR '']'')
        = Some \<lparr>Buffer = x, tmp = y(Suc (length (dec_nat d)) := CHR '']''), next = z\<rparr>"
       "\<And>x y z. tmp_set \<lparr>Buffer = x, tmp = y, next = z\<rparr> (int (length (dec_nat d)) + 2) (CHR '' '')
        = Some \<lparr>Buffer = x, tmp = y(Suc (Suc (length (dec_nat d))) := CHR '' ''), next = z\<rparr>"
    using len by (simp_all add: tmp_set_def tmp_len_def nat_add_distrib)
  have sl: "tmp_slice \<lparr>Buffer = x, tmp = y, next = z\<rparr> (int (length (dec_nat d)) + 3)
      = Some (map y [0..<length (dec_nat d) + 3])" for x y z
    using len by (simp add: tmp_slice_def tmp_len_def nat_add_distrib)
  have sl25: "tmp_slice \<lparr>Buffer = x, tmp = y, next = z\<rparr> 25 = Some (map y [0..<25])" for x y z
    by (simp add: tmp_slice_def tmp_len_def)
  note tsk = tmp_set_ok [of 0, simplified] tmp_set_ok [of 3, simplified]
    tmp_set_ok [of 6, simplified] tmp_set_ok [of 9, simplified] tmp_set_ok [of 12, simplified]
    tmp_set_ok [of 15, simplified] tmp_set_ok [of 22, simplified] tmp_set_ok [of 23, simplified]
    tmp_set_ok [of 24, simplified]
  note tdk = twoDigits_ok [OF t(1), of 1, simplified] twoDigits_ok [OF t(2), of 4, simplified]
    twoDigits_ok [OF t(3), of 7, simplified] twoDigits_ok [OF t(4), of 10, simplified]
    twoDigits_ok [OF t(5), of 13, simplified]
  note nd = nDigits_usec [of "int (nat (Nanosecond now) div 1000)", simplified]
  note sd = someDigits_eq [OF len63]
  note sv = sev_letter [OF s0]
  note hb = head_bytes [OF t(7) t(8) t(9) t(10) t(11) t(12)]
  note tb = tail_bytes [OF len]
  show ?thesis
    unfolding formatHeader_def time_Now_def gb now_def [symmetric] line1
    apply (simp only: prod.case Let_def b0 tsk tdk us nd sd sv ts sl sl25 Option.bind.bind_lunit
        buffer_Write_def buffer.simps fst_conv snd_conv hb tb)
    apply (simp only: spec_header_def d_def [symmetric] append_assoc append_Nil)
    apply (rule exI)
    apply (rule refl)
    done
qed

lemma zpad_length: "0 < k \<Longrightarrow> n < 10 ^ k \<Longrightarrow> length (zpad k n) = k"
  using dec_nat_length [of k n] by (simp add: zpad_def)

lemma sev_negative:
  "s < 0 \<Longrightarrow> severityChar_at (if s \<ge> severityCount then SeverityInfo else s) = None"
  by (simp add: severityChar_at_def severityCount_def)

lemma formatHeader_negative:
  assumes vt: "valid_time (clock e (tick w))" and s0: "s < 0"
  shows "formatHeader e s fname line pool w = None"
proof -
  obtain a pool1 where gb: "getBuffer pool = (a, pool1)" by (cases "getBuffer pool")
  obtain x0 y0 z0 where b0: "heap pool1 a = \<lparr>Buffer = x0, tmp = y0, next = z0\<rparr>"
    by (cases "heap pool1 a") auto
  define now where "now = clock e (tick w)"
  from vt have t: "0 \<le> Month now" "0 \<le> Day now" "0 \<le> Hour now" "0 \<le> Minute now"
      "0 \<le> Second now" "0 \<le> Nanosecond now"
    by (auto simp: valid_time_def now_def)
  have us: "go_quot (Nanosecond now) 1000 = int (nat (Nanosecond now) div 1000)"
    using t(6) by (cases "Nanosecond now = 0") (simp_all add: go_quot_def zdiv_int)
  note tsk = tmp_set_ok [of 0, simplified] tmp_set_ok [of 3, simplified]
    tmp_set_ok [of 6, simplified] tmp_set_ok [of 9, simplified] tmp_set_ok [of 12, simplified]
    tmp_set_ok [of 15, simplified] tmp_set_ok [of 22, simplified]
  note tdk = twoDigits_ok [OF t(1), of 1, simplified] twoDigits_ok [OF t(2), of 4, simplified]
    twoDigits_ok [OF t(3), of 7, simplified] twoDigits_ok [OF t(4), of 10, simplified]
    twoDigits_ok [OF t(5), of 13, simplified]
  note nd = nDigits_usec [of "int (nat (Nanosecond now) div 1000)", simplified]
  show ?thesis
    unfolding formatHeader_def time_Now_def gb now_def [symmetric]
    by (simp only: prod.case Let_def b0 tsk tdk us nd sev_negative [OF s0]
        Option.bind.bind_lunit Option.bind.bind_lzero)
qed

text \<open>
  Claim C6, as amended. For every severity that is not negative, every file string and
  every line number below \<open>2^63\<close>, at a valid reading of the clock, \<^verbatim>\<open>formatHeader\<close>
  returns a buffer whose content is the layout \<^verbatim>\<open>[MM-DD hh:mm:ss.uuuuuu L file:line] \<close>
  of the specification: month, day, hour, minute and second in two digits, the microseconds
  in six, the line number in minimal decimal with a negative one shown as 0, and a severity
  of 4 or more shown as Info.
\<close>

theorem C6_header_layout:
  "valid_time (clock e (tick w)) \<Longrightarrow> 0 \<le> s \<Longrightarrow> line < 2 ^ 63 \<Longrightarrow>
   (\<exists>a pool' w'. formatHeader e s fname line pool w = Some (a, pool', w') \<and>
      Buffer (heap pool' a) = spec_header (clock e (tick w)) s fname line) \<and>
   length (zpad 2 (nat (Month (clock e (tick w))))) = 2 \<and>
   length (zpad 2 (nat (Day (clock e (tick w))))) = 2 \<and>
   length (zpad 2 (nat (Hour (clock e (tick w))))) = 2 \<and>
   length (zpad 2 (nat (Minute (clock e (tick w))))) = 2 \<and>
   length (zpad 2 (nat (Second (clock e (tick w))))) = 2 \<and>
   length (zpad 6 (nat (Nanosecond (clock e (tick w))) div 1000)) = 6"
proof -
  assume vt: "valid_time (clock e (tick w))" and s0: "0 \<le> s" and ln: "line < 2 ^ 63"
  from formatHeader_ok [OF vt s0 ln, of fname pool]
  have "\<exists>a pool' w'. formatHeader e s fname line pool w = Some (a, pool', w') \<and>
      Buffer (heap pool' a) = spec_header (clock e (tick w)) s fname line"
    by auto
  moreover from vt have "nat (Month (clock e (tick w))) < 10 ^ 2" "nat (Day (clock e (tick w))) < 10 ^ 2"
      "nat (Hour (clock e (tick w))) < 10 ^ 2" "nat (Minute (clock e (tick w))) < 10 ^ 2"
      "nat (Second (clock e (tick w))) < 10 ^ 2" "nat (Nanosecond (clock e (tick w))) div 1000 < 10 ^ 6"
    by (auto simp: valid_time_def)
  ultimately show ?thesis
    by (simp add: zpad_length del: power_numeral)
qed

lemma valid_t0: "valid_time (clock env0 (tick init_world))"
  by (simp add: valid_time_def env0_def t0_def)

lemma replicate_5: "replicate 5 x = [x, x, x, x, x]"
  by (simp add: numeral_eq_Suc)

lemma spec_header_example: "spec_header t0 7 ''f.go'' (- 5) = ''[01-02 03:04:05.000006 I f.go:0] ''"
  by (simp add: spec_header_def t0_def zpad_def dec_nat.simps digits_def severity_letter_def
      severity_defs replicate_5)

theorem C6_header_layout_witness:
  "valid_time (clock env0 (tick init_world)) \<and> (0::int) \<le> 7 \<and> (- 5 :: int) < 2 ^ 63 \<and>
   (\<exists>a pool' w'. formatHeader env0 7 ''f.go'' (- 5) init_pool init_world = Some (a, pool', w') \<and>
      Buffer (heap pool' a) = ''[01-02 03:04:05.000006 I f.go:0] '')"
proof -
  have a: "(0::int) \<le> 7" and b: "(- 5 :: int) < 2 ^ 63" by simp_all
  from C6_header_layout [OF valid_t0 a b, of "''f.go''" init_pool]
  have "\<exists>a pool' w'. formatHeader env0 7 ''f.go'' (- 5) init_pool init_world = Some (a, pool', w') \<and>
      Buffer (heap pool' a) = spec_header (clock env0 (tick init_world)) 7 ''f.go'' (- 5)"
    by blast
  moreover have "clock env0 (tick init_world) = t0" by (simp add: env0_def)
  ultimately show ?thesis
    using valid_t0 a b by (simp add: spec_header_example)
qed

text \<open>
  The claim as stated fails for a negative severity: the test \<^verbatim>\<open>s >= severityCount\<close> lets
  it through and \<^verbatim>\<open>severityChar[s]\<close> panics.
\<close>

theorem C6_negative_severity_panics:
  "formatHeader env0 (- 1) ''f.go'' 12 init_pool init_world = None"
  using formatHeader_negative [OF valid_t0, of "- 1"] by simp

subsection \<open>Files, the buffered writer and the sink\<close>

lemma append_to_sel [simp]:
  "length (files (append_to w h p)) = length (files w)"
  "stderr (append_to w h p) = stderr w"
  "symlinks (append_to w h p) = symlinks w"
  "tick (append_to w h p) = tick w"
  by (simp_all add: append_to_def)

lemma append_to_nth:
  "g < length (files w) \<Longrightarrow>
   files (append_to w h p) ! g =
     (if g = h then (files w ! h)\<lparr>written := written (files w ! h) @ p\<rparr> else files w ! g)"
  by (simp add: append_to_def nth_list_update)

lemma append_to_closed [simp]:
  "g < length (files w) \<Longrightarrow> closed (files (append_to w h p) ! g) = closed (files w ! g)"
  by (simp add: append_to_nth)

lemma append_to_path [simp]:
  "g < length (files w) \<Longrightarrow> path (files (append_to w h p) ! g) = path (files w ! g)"
  by (simp add: append_to_nth)

lemma append_to_written:
  "g < length (files w) \<Longrightarrow>
   written (files (append_to w h p) ! g) = (if g = h then written (files w ! g) @ p else written (files w ! g))"
  by (simp add: append_to_nth)

lemma append_to_twice: "append_to (append_to w h a) h b = append_to w h (a @ b)"
  by (cases "h < length (files w)") (simp_all add: append_to_def list_update_beyond)

lemma append_to_Nil [simp]: "append_to w h [] = w"
  by (simp add: append_to_def)

lemma file_Write_open:
  "h < length (files w) \<Longrightarrow> \<not> closed (files w ! h) \<Longrightarrow>
   file_Write w h p = (length p, False, append_to w h p)"
  by (simp add: file_Write_def append_to_def)

lemma bufio_Flush_ok:
  "wr b < length (files w) \<Longrightarrow> \<not> closed (files w ! wr b) \<Longrightarrow> \<not> err b \<Longrightarrow>
   bufio_Flush w b = (append_to w (wr b) (buf b), b\<lparr>buf := []\<rparr>)"
  by (simp add: bufio_Flush_def file_Write_open)

lemma bufio_Write_ok:
  assumes "wr b < length (files w)" "\<not> closed (files w ! wr b)" "\<not> err b"
  shows "\<exists>X b'. bufio_Write w b p = (length p, append_to w (wr b) X, b') \<and>
           X @ buf b' = buf b @ p \<and> wr b' = wr b \<and> \<not> err b'"
proof (cases "length p > bufferSize - length (buf b)")
  case False
  with assms show ?thesis
    by (intro exI [of _ "[]"] exI [of _ "b\<lparr>buf := buf b @ p\<rparr>"]) (simp add: bufio_Write_def)
next
  case big: True
  show ?thesis
  proof (cases "buf b = []")
    case True
    with assms big show ?thesis
      by (intro exI [of _ p] exI [of _ b]) (simp add: bufio_Write_def file_Write_open)
  next
    case False
    let ?n = "bufferSize - length (buf b)"
    let ?b1 = "b\<lparr>buf := buf b @ take ?n p\<rparr>"
    have fl: "bufio_Flush w ?b1 = (append_to w (wr b) (buf b @ take ?n p), b\<lparr>buf := []\<rparr>)"
      using assms bufio_Flush_ok [of ?b1 w] by simp
    have np: "?n + length (drop ?n p) = length p" using big by simp
    show ?thesis
    proof (cases "length (drop ?n p) > bufferSize")
      case True
      have "bufio_Write w b p = (length p, append_to w (wr b) (buf b @ p), b\<lparr>buf := []\<rparr>)"
        using assms big False True np
        by (simp add: bufio_Write_def Let_def fl file_Write_open append_to_twice del: length_drop)
      then show ?thesis
        using assms by (intro exI [of _ "buf b @ p"] exI [of _ "b\<lparr>buf := []\<rparr>"]) simp
    next
      case small: False
      have "bufio_Write w b p
          = (length p, append_to w (wr b) (buf b @ take ?n p), b\<lparr>buf := drop ?n p\<rparr>)"
        using assms big False small np
        by (simp add: bufio_Write_def Let_def fl del: length_drop)
      then show ?thesis
        using assms
        by (intro exI [of _ "buf b @ take ?n p"] exI [of _ "b\<lparr>buf := drop ?n p\<rparr>"]) simp
    qed
  qed
qed


lemma cfg_only_refl [simp]: "cfg_only l l"
  by (simp add: cfg_only_def)

lemma cfg_only_trans: "cfg_only a b \<Longrightarrow> cfg_only b c \<Longrightarrow> cfg_only a c"
  by (simp add: cfg_only_def)

lemma getLogName_cfg: "cfg_only l (snd (getLogName e l))"
  by (simp add: getLogName_def cfg_only_def Let_def)

lemma getLogDir_cfg: "cfg_only l (snd (getLogDir e l))"
  by (simp add: getLogDir_def cfg_only_def Let_def)

lemma syncBuffer_logName_cfg: "cfg_only l (snd (syncBuffer_logName e l tag t))"
  by (simp add: syncBuffer_logName_def getLogName_def cfg_only_def Let_def split: prod.splits)

lemma create_ok:
  assumes "can_create e"
  shows "\<exists>P l2 w2. create e l w tag t = (Some (length (files w)), P, l2, w2) \<and>
           cfg_only l l2 \<and>
           files w2 = files w @ [\<lparr>path = P, written = [], closed = False\<rparr>] \<and>
           stderr w2 = stderr w \<and> tick w2 = tick w"
proof -
  obtain name link l1 where a: "syncBuffer_logName e l tag t = ((name, link), l1)"
    by (metis surj_pair)
  obtain dir l2 where b: "getLogDir e l1 = (dir, l2)" by (metis surj_pair)
  have "cfg_only l l1" using syncBuffer_logName_cfg [of l e tag t] a by simp
  moreover have "cfg_only l1 l2" using getLogDir_cfg [of l1 e] b by simp
  ultimately have "cfg_only l l2" by (rule cfg_only_trans)
  then show ?thesis
    using assms by (simp add: create_def a b os_OpenFile_def can_create_def Let_def)
qed

lemma create_fail:
  assumes "\<forall>p. \<not> openable e p"
  shows "\<exists>l2. create e l w tag t = (None, [], l2, w) \<and> cfg_only l l2"
proof -
  obtain name link l1 where a: "syncBuffer_logName e l tag t = ((name, link), l1)"
    by (metis surj_pair)
  obtain dir l2 where b: "getLogDir e l1 = (dir, l2)" by (metis surj_pair)
  have "cfg_only l l1" using syncBuffer_logName_cfg [of l e tag t] a by simp
  moreover have "cfg_only l1 l2" using getLogDir_cfg [of l1 e] b by simp
  ultimately have "cfg_only l l2" by (rule cfg_only_trans)
  then show ?thesis
    using assms by (simp add: create_def a b os_OpenFile_def Let_def)
qed

lemma names_kept_refl [simp]: "names_kept e l l"
  by (simp add: names_kept_def)

lemma names_kept_trans: "names_kept e a b \<Longrightarrow> names_kept e b c \<Longrightarrow> names_kept e a c"
  by (auto simp: names_kept_def intro: cfg_only_trans)

lemma names_kept_file:
  "names_kept e l l' \<Longrightarrow> log_path e (l'\<lparr>file := f\<rparr>) tag t = log_path e l tag t"
  by (simp add: names_kept_def log_path_def syncBuffer_logName_def getLogName_def getLogDir_def
        Let_def split: prod.splits if_splits)

lemma create_at:
  "\<exists>l2 S. names_kept e l l2 \<and>
     create e l w tag t =
       (if openable e (log_path e l tag t)
        then (Some (length (files w)), log_path e l tag t, l2,
              w\<lparr>files := files w @ [\<lparr>path = log_path e l tag t, written = [], closed = False\<rparr>],
                symlinks := S\<rparr>)
        else (None, [], l2, w))"
  by (simp add: create_def log_path_def syncBuffer_logName_def getLogName_def getLogDir_def
      os_OpenFile_def Let_def names_kept_def cfg_only_def split: prod.splits) auto

lemma severityName_at_nth:
  "0 \<le> s \<Longrightarrow> s < 4 \<Longrightarrow> severityName_at s = Some (severityName ! nat s)"
  by (simp add: severityName_at_def severityName_def)

lemma severityName_at_ok: "0 \<le> s \<Longrightarrow> s < 4 \<Longrightarrow> \<exists>tag. severityName_at s = Some tag"
  by (simp add: severityName_at_def severityName_def)

text \<open>The files after a rotation: the old one flushed and closed, the new one with its banner.\<close>

lemma rotateFile_new:
  assumes op: "openable e (log_path e l (severityName ! nat (sev sb)) now)"
    and sv: "0 \<le> sev sb" "sev sb < 4" and nf: "sb_file sb = None"
  shows "\<exists>l2 w3 sb'. rotateFile e now l w sb = Some (False, l2, w3, sb') \<and>
           names_kept e l l2 \<and>
           files w3 = files w @ [\<lparr>path = log_path e l (severityName ! nat (sev sb)) now,
                                   written = banner e now, closed = False\<rparr>] \<and>
           stderr w3 = stderr w \<and> tick w3 = tick w \<and>
           Writer sb' = Some (NewWriterSize (length (files w))) \<and>
           sb_file sb' = Some (length (files w)) \<and> sev sb' = sev sb \<and>
           nbytes sb' = of_nat (length (banner e now))"
proof -
  let ?tag = "severityName ! nat (sev sb)"
  let ?P = "log_path e l ?tag now"
  note tag = severityName_at_nth [OF sv]
  from create_at [of e l w ?tag now] op obtain l2 S where
    nk: "names_kept e l l2" and
    c: "create e l w ?tag now = (Some (length (files w)), ?P, l2,
          w\<lparr>files := files w @ [\<lparr>path = ?P, written = [], closed = False\<rparr>], symlinks := S\<rparr>)"
    by auto
  let ?w2 = "w\<lparr>files := files w @ [\<lparr>path = ?P, written = [], closed = False\<rparr>], symlinks := S\<rparr>"
  have fw: "file_Write ?w2 (length (files w)) (banner e now)
      = (length (banner e now), False, append_to ?w2 (length (files w)) (banner e now))"
    by (intro file_Write_open) simp_all
  have f3: "files (append_to ?w2 (length (files w)) (banner e now))
      = files w @ [\<lparr>path = ?P, written = banner e now, closed = False\<rparr>]"
    by (simp add: append_to_def)
  show ?thesis
    using nf tag c nk f3
    by (simp add: rotateFile_def fw Let_def)
qed

lemma rotateFile_new_fail:
  assumes op: "\<not> openable e (log_path e l (severityName ! nat (sev sb)) now)"
    and sv: "0 \<le> sev sb" "sev sb < 4" and nf: "sb_file sb = None"
  shows "\<exists>l2 sb'. rotateFile e now l w sb = Some (True, l2, w, sb') \<and> names_kept e l l2"
proof -
  let ?tag = "severityName ! nat (sev sb)"
  note tag = severityName_at_nth [OF sv]
  from create_at [of e l w ?tag now] op obtain l2 where
    nk: "names_kept e l l2" and c: "create e l w ?tag now = (None, [], l2, w)"
    by auto
  show ?thesis
    using nf tag c nk by (simp add: rotateFile_def Let_def)
qed

lemma rotateFile_open:
  assumes cc: "can_create e" and sv: "0 \<le> sev sb" "sev sb < 4"
    and W: "Writer sb = Some bw" and h: "healthy w sb"
  shows "\<exists>P l2 w3 sb'. rotateFile e now l w sb = Some (False, l2, w3, sb') \<and>
           cfg_only l l2 \<and>
           files w3 = (files w)[wr bw := (files w ! wr bw)
                          \<lparr>written := written (files w ! wr bw) @ buf bw, closed := True\<rparr>]
                      @ [\<lparr>path = P, written = banner e now, closed = False\<rparr>] \<and>
           stderr w3 = stderr w \<and> tick w3 = tick w \<and>
           Writer sb' = Some (NewWriterSize (length (files w))) \<and>
           sb_file sb' = Some (length (files w)) \<and> sev sb' = sev sb \<and>
           nbytes sb' = of_nat (length (banner e now))"
proof -
  from h W have hh: "sb_file sb = Some (wr bw)" "wr bw < length (files w)"
      "\<not> closed (files w ! wr bw)" "\<not> err bw"
    by (simp_all add: healthy_def)
  from severityName_at_ok [OF sv] obtain tag where tag: "severityName_at (sev sb) = Some tag" ..
  let ?w1 = "file_Close (append_to w (wr bw) (buf bw)) (wr bw)"
  have f1: "files ?w1 = (files w)[wr bw := (files w ! wr bw)
                          \<lparr>written := written (files w ! wr bw) @ buf bw, closed := True\<rparr>]"
    using hh by (simp add: file_Close_def append_to_def)
  have o1: "stderr ?w1 = stderr w" "tick ?w1 = tick w"
    by (simp_all add: file_Close_def)
  from create_ok [OF cc, of l ?w1 tag now] obtain P l2 w2 where
    c: "create e l ?w1 tag now = (Some (length (files ?w1)), P, l2, w2)" and
    cfg: "cfg_only l l2" and
    f2: "files w2 = files ?w1 @ [\<lparr>path = P, written = [], closed = False\<rparr>]" and
    o2: "stderr w2 = stderr ?w1" "tick w2 = tick ?w1"
    by blast
  have len1: "length (files ?w1) = length (files w)" by (simp add: f1)
  have fw: "file_Write w2 (length (files w)) (banner e now)
      = (length (banner e now), False, append_to w2 (length (files w)) (banner e now))"
    using f2 len1 by (intro file_Write_open) (simp_all add: nth_append)
  have f3: "files (append_to w2 (length (files w)) (banner e now))
      = (files w)[wr bw := (files w ! wr bw)
                          \<lparr>written := written (files w ! wr bw) @ buf bw, closed := True\<rparr>]
        @ [\<lparr>path = P, written = banner e now, closed = False\<rparr>]"
    using f2 len1 f1 by (simp add: append_to_def nth_append list_update_append)
  show ?thesis
    using hh W tag c cfg f3 o1 o2 len1
    by (simp add: rotateFile_def bufio_Flush_ok fw Let_def)
qed


lemma getMaxSize_frame:
  "file (snd (getMaxSize l)) = file l" "mu (snd (getMaxSize l)) = mu l"
  "severityLimit (snd (getMaxSize l)) = severityLimit l"
  "maxSize (snd (getMaxSize l)) = fst (getMaxSize l)"
  "logName (snd (getMaxSize l)) = logName l" "logDir (snd (getMaxSize l)) = logDir l"
  by (simp_all add: getMaxSize_def Let_def)

lemma syncBuffer_Write_plain:
  assumes h: "healthy w sb" and W: "Writer sb = Some bw" and nr: "\<not> rotates l sb p"
  shows "\<exists>X sb' bw'. syncBuffer_Write e l w sb p
              = Some (length p, snd (getMaxSize l), append_to w (wr bw) X, sb') \<and>
           X @ buf bw' = buf bw @ p \<and>
           Writer sb' = Some bw' \<and> wr bw' = wr bw \<and> \<not> err bw' \<and>
           sb_file sb' = sb_file sb \<and> sev sb' = sev sb \<and>
           nbytes sb' = nbytes sb + of_nat (length p)"
proof -
  from h W have hh: "wr bw < length (files w)" "\<not> closed (files w ! wr bw)" "\<not> err bw"
    by (simp_all add: healthy_def)
  from bufio_Write_ok [OF hh, of p] obtain X bw' where
    bwr: "bufio_Write w bw p = (length p, append_to w (wr bw) X, bw')" and
    x: "X @ buf bw' = buf bw @ p" "wr bw' = wr bw" "\<not> err bw'"
    by blast
  show ?thesis
    using nr W x
    by (intro exI [of _ X] exI [of _ "sb\<lparr>Writer := Some bw', nbytes := nbytes sb + of_nat (length p)\<rparr>"]
          exI [of _ bw'])
       (simp add: syncBuffer_Write_def bwr)
qed

lemma syncBuffer_Write_rotating:
  assumes h: "healthy w sb" and W: "Writer sb = Some bw" and r: "rotates l sb p"
    and cc: "can_create e" and sv: "0 \<le> sev sb" "sev sb < 4"
  shows "\<exists>l' w' sb' bw'. syncBuffer_Write e l w sb p = Some (length p, l', w', sb') \<and>
           file l' = file l \<and> mu l' = mu l \<and> severityLimit l' = severityLimit l \<and>
           maxSize l' = fst (getMaxSize l) \<and>
           length (files w') = Suc (length (files w)) \<and>
           files w' ! wr bw = (files w ! wr bw)
               \<lparr>written := written (files w ! wr bw) @ buf bw, closed := True\<rparr> \<and>
           (\<forall>g < length (files w). g \<noteq> wr bw \<longrightarrow> files w' ! g = files w ! g) \<and>
           stderr w' = stderr w \<and> tick w' = Suc (tick w) \<and>
           Writer sb' = Some bw' \<and> wr bw' = length (files w) \<and> \<not> err bw' \<and>
           sb_file sb' = Some (length (files w)) \<and> sev sb' = sev sb \<and>
           nbytes sb' = of_nat (length (banner e (clock e (tick w)))) + of_nat (length p) \<and>
           \<not> closed (files w' ! length (files w)) \<and>
           written (files w' ! length (files w)) @ buf bw' = banner e (clock e (tick w)) @ p"
proof -
  let ?now = "clock e (tick w)"
  let ?w1 = "w\<lparr>tick := Suc (tick w)\<rparr>"
  let ?l1 = "snd (getMaxSize l)"
  let ?h = "length (files w)"
  from h W have hh: "wr bw < length (files w)" by (simp add: healthy_def)
  have h1: "healthy ?w1 sb" using h by (simp add: healthy_def split: option.splits)
  from rotateFile_open [OF cc sv W h1, of ?now ?l1] obtain P l2 w3 sb3 where
    rf: "rotateFile e ?now ?l1 ?w1 sb = Some (False, l2, w3, sb3)" and
    cfg: "cfg_only ?l1 l2" and
    f3: "files w3 = (files w)[wr bw := (files w ! wr bw)
                          \<lparr>written := written (files w ! wr bw) @ buf bw, closed := True\<rparr>]
                      @ [\<lparr>path = P, written = banner e ?now, closed = False\<rparr>]" and
    o3: "stderr w3 = stderr w" "tick w3 = Suc (tick w)" and
    s3: "Writer sb3 = Some (NewWriterSize ?h)" "sb_file sb3 = Some ?h" "sev sb3 = sev sb"
        "nbytes sb3 = of_nat (length (banner e ?now))"
    by auto
  have g: "wr (NewWriterSize ?h) < length (files w3)"
      "\<not> closed (files w3 ! wr (NewWriterSize ?h))" "\<not> err (NewWriterSize ?h)"
    by (simp_all add: f3 NewWriterSize_def nth_append)
  from bufio_Write_ok [OF g, of p] obtain X bw' where
    bwr: "bufio_Write w3 (NewWriterSize ?h) p = (length p, append_to w3 ?h X, bw')" and
    x: "X @ buf bw' = p" "wr bw' = ?h" "\<not> err bw'"
    by (auto simp: NewWriterSize_def)
  have res: "syncBuffer_Write e l w sb p
      = Some (length p, l2, append_to w3 ?h X,
              sb3\<lparr>Writer := Some bw', nbytes := nbytes sb3 + of_nat (length p)\<rparr>)"
    using r by (simp add: syncBuffer_Write_def time_Now_def rf s3 bwr)
  have len3: "length (files w3) = Suc ?h" by (simp add: f3)
  have a: "files (append_to w3 ?h X) ! wr bw = (files w ! wr bw)
               \<lparr>written := written (files w ! wr bw) @ buf bw, closed := True\<rparr>"
    using hh by (simp add: append_to_nth len3 f3 nth_append)
  have b: "\<forall>g < ?h. g \<noteq> wr bw \<longrightarrow> files (append_to w3 ?h X) ! g = files w ! g"
    by (simp add: append_to_nth len3) (simp add: f3 nth_append)
  have c: "\<not> closed (files (append_to w3 ?h X) ! ?h)"
      "written (files (append_to w3 ?h X) ! ?h) @ buf bw' = banner e ?now @ p"
    using x by (simp_all add: append_to_nth len3) (simp_all add: f3 nth_append)
  from cfg have d: "file l2 = file l" "mu l2 = mu l" "severityLimit l2 = severityLimit l"
      "maxSize l2 = fst (getMaxSize l)"
    by (simp_all add: cfg_only_def getMaxSize_frame)
  show ?thesis
    unfolding res using a b c d x o3 s3 len3
    by (intro exI [of _ l2] exI [of _ "append_to w3 ?h X"]
          exI [of _ "sb3\<lparr>Writer := Some bw', nbytes := nbytes sb3 + of_nat (length p)\<rparr>"]
          exI [of _ bw'])
       simp
qed

subsection \<open>Rotation\<close>


lemma healthy_stream:
  "Writer sb = Some bw \<Longrightarrow> stream w sb = written (files w ! wr bw) @ buf bw"
  by (simp add: stream_def)



lemma can_create_env0: "can_create env0"
  by (simp add: can_create_def env0_def)



lemma clock_env0: "clock env0 n = t0"
  by (simp add: env0_def)



subsection \<open>The cascade of writes\<close>

lemma healthyD:
  "healthy w sb \<Longrightarrow>
   \<exists>bw. Writer sb = Some bw \<and> sb_file sb = Some (wr bw) \<and> wr bw < length (files w) \<and>
        \<not> closed (files w ! wr bw) \<and> \<not> err bw"
  by (auto simp: healthy_def split: option.splits)

lemma healthy_frame:
  assumes "healthy w sb" "sb_file sb = Some g"
    "length (files w) \<le> length (files w')" "files w' ! g = files w ! g"
  shows "healthy w' sb \<and> stream w' sb = stream w sb"
  using assms by (auto simp: healthy_def stream_def split: option.splits)

lemma syncBuffer_Write_frame:
  assumes h: "healthy w sb" and W: "Writer sb = Some bw" and cc: "can_create e"
    and sv: "0 \<le> sev sb" "sev sb < 4"
  shows "\<exists>l' w' sb'. syncBuffer_Write e l w sb p = Some (length p, l', w', sb') \<and>
           file l' = file l \<and> mu l' = mu l \<and> severityLimit l' = severityLimit l \<and>
           healthy w' sb' \<and> sev sb' = sev sb \<and>
           (sb_file sb' = sb_file sb \<or> sb_file sb' = Some (length (files w))) \<and>
           length (files w) \<le> length (files w') \<and>
           (\<forall>g < length (files w). g \<noteq> wr bw \<longrightarrow> files w' ! g = files w ! g) \<and>
           stderr w' = stderr w \<and> (\<exists>pre. stream w' sb' = pre @ p)"
proof (cases "rotates l sb p")
  case True
  from syncBuffer_Write_rotating [OF h W True cc sv] obtain l' w' sb' bw' where
    r: "syncBuffer_Write e l w sb p = Some (length p, l', w', sb')" and
    lf: "file l' = file l" "mu l' = mu l" "severityLimit l' = severityLimit l" and
    f: "length (files w') = Suc (length (files w))"
       "\<forall>g < length (files w). g \<noteq> wr bw \<longrightarrow> files w' ! g = files w ! g"
       "stderr w' = stderr w" and
    s: "Writer sb' = Some bw'" "wr bw' = length (files w)" "\<not> err bw'"
       "sb_file sb' = Some (length (files w))" "sev sb' = sev sb"
       "\<not> closed (files w' ! length (files w))"
       "written (files w' ! length (files w)) @ buf bw' = banner e (clock e (tick w)) @ p"
    by blast
  have "healthy w' sb'" using s f by (simp add: healthy_def)
  moreover have "stream w' sb' = banner e (clock e (tick w)) @ p"
    using s by (simp add: stream_def)
  ultimately show ?thesis
    using r lf f s by (intro exI [of _ l'] exI [of _ w'] exI [of _ sb']) simp
next
  case False
  from h W have hh: "sb_file sb = Some (wr bw)" "wr bw < length (files w)"
      "\<not> closed (files w ! wr bw)" "\<not> err bw"
    by (simp_all add: healthy_def)
  from syncBuffer_Write_plain [OF h W False, of e] obtain X sb' bw' where
    r: "syncBuffer_Write e l w sb p
            = Some (length p, snd (getMaxSize l), append_to w (wr bw) X, sb')" and
    s: "X @ buf bw' = buf bw @ p" "Writer sb' = Some bw'" "wr bw' = wr bw" "\<not> err bw'"
       "sb_file sb' = sb_file sb" "sev sb' = sev sb"
    by blast
  have "healthy (append_to w (wr bw) X) sb'" using s hh by (simp add: healthy_def)
  moreover have "stream (append_to w (wr bw) X) sb' = stream w sb @ p"
    using s hh W by (simp add: stream_def append_to_written)
  ultimately show ?thesis
    using r s
    by (intro exI [of _ "snd (getMaxSize l)"] exI [of _ "append_to w (wr bw) X"] exI [of _ sb'])
       (simp add: getMaxSize_frame append_to_nth)
qed

text \<open>What one \<^verbatim>\<open>l.file[k].Write(data)\<close> does to a well-formed logger.\<close>

lemma write_slot_ok:
  assumes ws: "wf_slots l w" and dh: "distinct_handles l" and cc: "can_create e"
    and k: "k < 4" and sl: "file l k = Some sb"
  shows "\<exists>l' w' sb'. write_slot e k data (l, w) = Some (l', w') \<and>
           wf_slots l' w' \<and> distinct_handles l' \<and>
           file l' k = Some sb' \<and> (\<exists>pre. stream w' sb' = pre @ data) \<and>
           (\<forall>j. j \<noteq> k \<longrightarrow> file l' j = file l j) \<and>
           (\<forall>j sbj. j < 4 \<and> j \<noteq> k \<and> file l j = Some sbj \<longrightarrow> stream w' sbj = stream w sbj) \<and>
           stderr w' = stderr w \<and> mu l' = mu l \<and> severityLimit l' = severityLimit l"
proof -
  from ws k sl have h: "healthy w sb" and sk: "sev sb = int k" by (auto simp: wf_slots_def)
  from healthyD [OF h] obtain bw where W: "Writer sb = Some bw" and hf: "sb_file sb = Some (wr bw)"
    and hb: "wr bw < length (files w)" by blast
  from sk k have sv: "0 \<le> sev sb" "sev sb < 4" by simp_all
  from syncBuffer_Write_frame [OF h W cc sv, of l data] obtain l1 w' sb' where
    r: "syncBuffer_Write e l w sb data = Some (length data, l1, w', sb')" and
    lf: "file l1 = file l" "mu l1 = mu l" "severityLimit l1 = severityLimit l" and
    hs: "healthy w' sb'" "sev sb' = sev sb" and
    fh: "sb_file sb' = sb_file sb \<or> sb_file sb' = Some (length (files w))" and
    fr: "length (files w) \<le> length (files w')"
        "\<forall>g < length (files w). g \<noteq> wr bw \<longrightarrow> files w' ! g = files w ! g"
        "stderr w' = stderr w" and
    st: "\<exists>pre. stream w' sb' = pre @ data"
    by blast
  let ?l' = "l1\<lparr>file := (file l1)(k := Some sb')\<rparr>"
  have res: "write_slot e k data (l, w) = Some (?l', w')"
    by (simp add: write_slot_def sl r)
  have others: "healthy w' sbj \<and> stream w' sbj = stream w sbj \<and> sb_file sbj \<noteq> sb_file sb'"
    if "j < 4" "j \<noteq> k" "file l j = Some sbj" for j sbj
  proof -
    from ws that have hj: "healthy w sbj" by (auto simp: wf_slots_def)
    from healthyD [OF hj] obtain bj :: bufio_Writer where
      j: "sb_file sbj = Some (wr bj)" "wr bj < length (files w)" by blast
    from dh that k sl have ne: "sb_file sbj \<noteq> sb_file sb" by (auto simp: distinct_handles_def)
    with j hf have "wr bj \<noteq> wr bw" by auto
    with fr j have "files w' ! wr bj = files w ! wr bj" by simp
    from healthy_frame [OF hj j(1) fr(1) this] ne fh j show ?thesis by auto
  qed
  have ws': "wf_slots ?l' w'"
    unfolding wf_slots_def
  proof (intro allI impI)
    fix j sbj
    assume a: "j < 4 \<and> file ?l' j = Some sbj"
    show "healthy w' sbj \<and> sev sbj = int j"
    proof (cases "j = k")
      case True
      with a hs sk show ?thesis by simp
    next
      case False
      with a lf have "file l j = Some sbj" by simp
      with others [OF _ False this] ws a show ?thesis by (auto simp: wf_slots_def)
    qed
  qed
  have dh': "distinct_handles ?l'"
    unfolding distinct_handles_def
  proof (intro allI impI)
    fix i j a b
    assume a: "i < 4 \<and> j < 4 \<and> i \<noteq> j \<and> file ?l' i = Some a \<and> file ?l' j = Some b"
    consider "i = k" | "j = k" | "i \<noteq> k" "j \<noteq> k" by blast
    then show "sb_file a \<noteq> sb_file b"
    proof cases
      case 1
      with a lf have "a = sb'" "file l j = Some b" "j \<noteq> k" by auto
      with others [of j b] a show ?thesis by auto
    next
      case 2
      with a lf have "b = sb'" "file l i = Some a" "i \<noteq> k" by auto
      with others [of i a] a show ?thesis by auto
    next
      case 3
      with a lf have "file l i = Some a" "file l j = Some b" by auto
      with dh a show ?thesis by (auto simp: distinct_handles_def)
    qed
  qed
  show ?thesis
    using res ws' dh' st lf fr others
    by (intro exI [of _ ?l'] exI [of _ w'] exI [of _ sb']) auto
qed


lemma stream_stderr [simp]: "stream (w\<lparr>stderr := x\<rparr>) sb = stream w sb"
  by (simp add: stream_def split: option.splits)

lemma healthy_stderr [simp]: "healthy (w\<lparr>stderr := x\<rparr>) sb = healthy w sb"
  by (simp add: healthy_def split: option.splits)

lemma wf_slots_stderr [simp]: "wf_slots l (w\<lparr>stderr := x\<rparr>) = wf_slots l w"
  by (simp add: wf_slots_def)








subsection \<open>Creating sinks, flushing, and the output routine\<close>

lemma grown_refl [simp]: "grown l w l w"
  by (simp add: grown_def)


lemma grown_healthy:
  assumes "grown l w l' w'" "healthy w sb"
  shows "healthy w' sb \<and> stream w' sb = stream w sb"
proof -
  from assms(1) obtain ys where f: "files w' = files w @ ys" by (auto simp: grown_def)
  from healthyD [OF assms(2)] obtain bw :: bufio_Writer where
    b: "sb_file sb = Some (wr bw)" "wr bw < length (files w)" by blast
  show ?thesis
    using b f by (intro healthy_frame [OF assms(2) b(1)]) (simp_all add: nth_append)
qed

lemma createFiles_loop_below:
  "s < severityLimit l \<Longrightarrow> createFiles_loop e now l w s = Some (False, l, w)"
  by (subst createFiles_loop.simps) simp



text \<open>One round of the loop that creates the sink of slot \<open>n\<close>.\<close>

lemma createFiles_loop_round:
  assumes op: "openable e (log_path e l (severityName ! n) now)"
    and lim: "severityLimit l \<le> int n" and n: "n < 4"
    and emp: "file l n = None" and ws: "wf_slots l w" and dh: "distinct_handles l"
  shows "\<exists>l1 w1 sb. createFiles_loop e now l w (int n)
              = createFiles_loop e now l1 w1 (int n - 1) \<and>
           file l1 = (file l)(n := Some sb) \<and> wf_slots l1 w1 \<and> distinct_handles l1 \<and>
           grown l w l1 w1 \<and> (\<forall>tag t. log_path e l1 tag t = log_path e l tag t)"
proof -
  let ?sb = "\<lparr>Writer = None, sb_file = None, sev = int n, nbytes = 0\<rparr>"
  from rotateFile_new [of e l ?sb now w] op n obtain l2 w3 sb' where
    r: "rotateFile e now l w ?sb = Some (False, l2, w3, sb')" and
    nk: "names_kept e l l2" and
    f3: "files w3 = files w @ [\<lparr>path = log_path e l (severityName ! n) now,
                                written = banner e now, closed = False\<rparr>]" and
    o3: "stderr w3 = stderr w" "tick w3 = tick w" and
    s3: "Writer sb' = Some (NewWriterSize (length (files w)))"
        "sb_file sb' = Some (length (files w))" "sev sb' = int n"
    by auto
  from nk have cfg: "cfg_only l l2" by (simp add: names_kept_def)
  let ?l1 = "l2\<lparr>file := (file l2)(n := Some sb')\<rparr>"
  from cfg have c: "file l2 = file l" "mu l2 = mu l" "severityLimit l2 = severityLimit l"
    by (simp_all add: cfg_only_def)
  have step: "createFiles_loop e now l w (int n) = createFiles_loop e now ?l1 w3 (int n - 1)"
    using lim n emp by (subst createFiles_loop.simps) (simp add: file_at_def severityCount_def r)
  have g: "grown l w ?l1 w3"
    using c f3 o3 emp by (auto simp: grown_def)
  have hn: "healthy w3 sb'"
    using s3 f3 by (simp add: healthy_def NewWriterSize_def nth_append)
  have ws1: "wf_slots ?l1 w3"
    unfolding wf_slots_def
  proof (intro allI impI)
    fix j sbj
    assume a: "j < 4 \<and> file ?l1 j = Some sbj"
    show "healthy w3 sbj \<and> sev sbj = int j"
    proof (cases "j = n")
      case True
      with a hn s3 show ?thesis by simp
    next
      case False
      with a c have "file l j = Some sbj" by simp
      with ws a have "healthy w sbj" "sev sbj = int j" by (auto simp: wf_slots_def)
      with grown_healthy [OF g] show ?thesis by simp
    qed
  qed
  have old: "sb_file sbj \<noteq> Some (length (files w))" if "j < 4" "file l j = Some sbj" for j sbj
  proof -
    from ws that have "healthy w sbj" by (auto simp: wf_slots_def)
    from healthyD [OF this] show ?thesis by auto
  qed
  have dh1: "distinct_handles ?l1"
    unfolding distinct_handles_def
  proof (intro allI impI)
    fix i j a b
    assume a: "i < 4 \<and> j < 4 \<and> i \<noteq> j \<and> file ?l1 i = Some a \<and> file ?l1 j = Some b"
    consider "i = n" | "j = n" | "i \<noteq> n" "j \<noteq> n" by blast
    then show "sb_file a \<noteq> sb_file b"
    proof cases
      case 1
      with a c have "a = sb'" "file l j = Some b" by auto
      with old [of j b] a s3 show ?thesis by auto
    next
      case 2
      with a c have "b = sb'" "file l i = Some a" by auto
      with old [of i a] a s3 show ?thesis by auto
    next
      case 3
      with a c have "file l i = Some a" "file l j = Some b" by auto
      with dh a show ?thesis by (auto simp: distinct_handles_def)
    qed
  qed
  show ?thesis
    using step c ws1 dh1 g names_kept_file [OF nk]
    by (intro exI [of _ ?l1] exI [of _ w3] exI [of _ sb']) simp
qed



lemma wf_mu [simp]:
  "wf_slots (l\<lparr>mu := x\<rparr>) w = wf_slots l w"
  "distinct_handles (l\<lparr>mu := x\<rparr>) = distinct_handles l"
  "prefix_slots (l\<lparr>mu := x\<rparr>) = prefix_slots l"
  by (simp_all add: wf_slots_def distinct_handles_def prefix_slots_def)

lemma wf_tick [simp]:
  "healthy (w\<lparr>tick := x\<rparr>) sb = healthy w sb"
  "stream (w\<lparr>tick := x\<rparr>) sb = stream w sb"
  "wf_slots l (w\<lparr>tick := x\<rparr>) = wf_slots l w"
  by (simp_all add: wf_slots_def healthy_def stream_def split: option.splits)

lemma same_streams_refl [simp]: "same_streams l w l w"
  by (auto simp: same_streams_def)

lemma same_streams_trans:
  assumes a: "same_streams l w l1 w1" and b: "same_streams l1 w1 l2 w2"
  shows "same_streams l w l2 w2"
  unfolding same_streams_def
proof (intro conjI allI impI)
  fix j sb sb'
  assume x: "j < 4 \<and> file l j = Some sb \<and> file l2 j = Some sb'"
  from a have "(file l1 j = None) = (file l j = None)" unfolding same_streams_def by blast
  with x obtain sb1 where m: "file l1 j = Some sb1" by (cases "file l1 j") auto
  from a x m have "stream w1 sb1 = stream w sb \<and> sb_file sb1 = sb_file sb"
    unfolding same_streams_def by blast
  moreover from b x m have "stream w2 sb' = stream w1 sb1 \<and> sb_file sb' = sb_file sb1"
    unfolding same_streams_def by blast
  ultimately show "stream w2 sb' = stream w sb" "sb_file sb' = sb_file sb" by simp_all
qed (use a b in \<open>auto simp: same_streams_def\<close>)

lemma flush_slot_ok:
  assumes ws: "wf_slots l w" and dh: "distinct_handles l" and k: "k < 4"
  shows "\<exists>l' w'. flush_slot k (l, w) = Some (l', w') \<and>
           wf_slots l' w' \<and> distinct_handles l' \<and> same_streams l w l' w'"
proof (cases "file l k")
  case None
  with ws dh show ?thesis
    by (intro exI [of _ l] exI [of _ w]) (simp add: flush_slot_def)
next
  case (Some sb)
  from ws k Some have h: "healthy w sb" and sk: "sev sb = int k" by (auto simp: wf_slots_def)
  from healthyD [OF h] obtain bw where W: "Writer sb = Some bw" and hf: "sb_file sb = Some (wr bw)"
    and hb: "wr bw < length (files w)" "\<not> closed (files w ! wr bw)" "\<not> err bw" by blast
  let ?w' = "append_to w (wr bw) (buf bw)"
  let ?sb' = "sb\<lparr>Writer := Some (bw\<lparr>buf := []\<rparr>)\<rparr>"
  let ?l' = "l\<lparr>file := (file l)(k := Some ?sb')\<rparr>"
  have res: "flush_slot k (l, w) = Some (?l', ?w')"
    by (simp add: flush_slot_def Some W bufio_Flush_ok hb)
  have mine: "healthy ?w' ?sb'" "stream ?w' ?sb' = stream w sb" "sb_file ?sb' = sb_file sb"
    using hf hb W by (simp_all add: healthy_def stream_def append_to_written)
  have others: "healthy ?w' sbj \<and> stream ?w' sbj = stream w sbj \<and> sb_file sbj \<noteq> sb_file sb"
    if "j < 4" "j \<noteq> k" "file l j = Some sbj" for j sbj
  proof -
    from ws that have hj: "healthy w sbj" by (auto simp: wf_slots_def)
    from healthyD [OF hj] obtain bj :: bufio_Writer where
      j: "sb_file sbj = Some (wr bj)" "wr bj < length (files w)" by blast
    from dh that k Some have ne: "sb_file sbj \<noteq> sb_file sb" by (auto simp: distinct_handles_def)
    with j hf have "wr bj \<noteq> wr bw" by auto
    with j have "files ?w' ! wr bj = files w ! wr bj" by (simp add: append_to_nth)
    from healthy_frame [OF hj j(1) _ this] ne show ?thesis by simp
  qed
  have ws': "wf_slots ?l' ?w'"
    unfolding wf_slots_def
  proof (intro allI impI)
    fix j sbj
    assume a: "j < 4 \<and> file ?l' j = Some sbj"
    show "healthy ?w' sbj \<and> sev sbj = int j"
    proof (cases "j = k")
      case True
      with a mine sk show ?thesis by auto
    next
      case False
      with a have "file l j = Some sbj" by simp
      with others [OF _ False this] ws a show ?thesis by (auto simp: wf_slots_def)
    qed
  qed
  have dh': "distinct_handles ?l'"
    unfolding distinct_handles_def
  proof (intro allI impI)
    fix i j a b
    assume a: "i < 4 \<and> j < 4 \<and> i \<noteq> j \<and> file ?l' i = Some a \<and> file ?l' j = Some b"
    consider "i = k" | "j = k" | "i \<noteq> k" "j \<noteq> k" by blast
    then show "sb_file a \<noteq> sb_file b"
    proof cases
      case 1
      with a have "a = ?sb'" "file l j = Some b" "j \<noteq> k" by auto
      with others [of j b] a mine show ?thesis by auto
    next
      case 2
      with a have "b = ?sb'" "file l i = Some a" "i \<noteq> k" by auto
      with others [of i a] a mine show ?thesis by auto
    next
      case 3
      with a have "file l i = Some a" "file l j = Some b" by auto
      with dh a show ?thesis by (auto simp: distinct_handles_def)
    qed
  qed
  have ss: "same_streams l w ?l' ?w'"
    unfolding same_streams_def
  proof (intro conjI allI impI)
    fix j sbj sbj'
    assume a: "j < 4 \<and> file l j = Some sbj \<and> file ?l' j = Some sbj'"
    show "stream ?w' sbj' = stream w sbj" "sb_file sbj' = sb_file sbj"
      using a Some mine others [of j sbj] by (cases "j = k"; auto)+
  qed (use Some in auto)
  show ?thesis
    using res ws' dh' ss by (intro exI [of _ ?l'] exI [of _ ?w']) simp
qed






subsection \<open>The leveled writes\<close>

lemma header_ok:
  assumes vt: "valid_time (clock e (tick w))" and s0: "0 \<le> s" and ln: "snd (site caller) < 2 ^ 63"
  shows "\<exists>y'. header e s caller pool w =
      Some (fst (getBuffer pool),
            (snd (getBuffer pool))
              \<lparr>heap := (heap (snd (getBuffer pool)))
                 (fst (getBuffer pool) :=
                    \<lparr>Buffer = spec_header (clock e (tick w)) s (fst (site caller)) (snd (site caller)),
                     tmp = y', next = None\<rparr>)\<rparr>,
            w\<lparr>tick := Suc (tick w)\<rparr>)"
proof (cases caller)
  case None
  with formatHeader_ok [OF vt s0, of 1 "''???''" pool] show ?thesis
    by (simp add: header_def site_def)
next
  case (Some c)
  obtain f line where c: "c = (f, line)" by (cases c)
  with Some ln have "line < 2 ^ 63" by (simp add: site_def)
  from formatHeader_ok [OF vt s0 this, of "after_last_slash f" pool] Some c show ?thesis
    by (simp add: header_def site_def)
qed

lemma spec_header_nonempty: "spec_header t s f line \<noteq> []"
  by (simp add: spec_header_def)




lemma init_sel [simp]:
  "the_logger init_state = init_logger" "the_world init_state = init_world"
  "the_pool init_state = init_pool" "tick init_world = 0" "stderr init_world = []"
  "files init_world = []" "file init_logger = (\<lambda>_. None)" "severityLimit init_logger = 0"
  "mu init_logger = False"
  by (simp_all add: init_state_def init_world_def init_logger_def)

lemma site_None: "site None = (''???'', 1)"
  by (simp add: site_def)



subsection \<open>When a file cannot be created\<close>

lemma log_path_mu [simp]: "log_path e (l\<lparr>mu := x\<rparr>) tag t = log_path e l tag t"
  by (simp add: log_path_def syncBuffer_logName_def getLogName_def getLogDir_def Let_def)

text \<open>The path of \<^verbatim>\<open>output\<close> on which the first creation fails.\<close>

lemma output_create_fails:
  assumes nm: "\<not> mu (the_logger st)" and s: "s < 4"
    and lim: "severityLimit (the_logger st) \<le> int s"
    and emp: "file (the_logger st) s = None"
    and op: "\<not> openable e (log_path e (the_logger st) (severityName ! s)
                              (clock e (tick (the_world st))))"
  shows "\<exists>l1. output e (int s) a st
             = Returned (st\<lparr>the_logger := l1,
                           the_world := (the_world st)\<lparr>tick := Suc (tick (the_world st))\<rparr>\<rparr>) \<and>
           mu l1 \<and> file l1 = file (the_logger st) \<and>
           severityLimit l1 = severityLimit (the_logger st)"
proof -
  let ?l = "(the_logger st)\<lparr>mu := True\<rparr>"
  let ?now = "clock e (tick (the_world st))"
  let ?w1 = "(the_world st)\<lparr>tick := Suc (tick (the_world st))\<rparr>"
  let ?sb = "\<lparr>Writer = None, sb_file = None, sev = int s, nbytes = 0\<rparr>"
  from rotateFile_new_fail [of e ?l ?sb ?now ?w1] op s obtain l2 sb' where
    r: "rotateFile e ?now ?l ?w1 ?sb = Some (True, l2, ?w1, sb')" and nk: "names_kept e ?l l2"
    by auto
  from nk have c: "file l2 = file (the_logger st)" "mu l2"
      "severityLimit l2 = severityLimit (the_logger st)"
    by (simp_all add: names_kept_def cfg_only_def)
  have fa: "file_at ?l (int s) = Some None"
    using s emp by (simp add: file_at_def severityCount_def)
  have loop: "createFiles_loop e ?now ?l ?w1 (int s) = Some (True, l2, ?w1)"
    using lim fa by (subst createFiles_loop.simps) (simp add: r)
  have cr: "createFiles e ?l (the_world st) (int s) = Some (True, l2, ?w1)"
    by (simp add: createFiles_def time_Now_def loop)
  have "output e (int s) a st = Returned (st\<lparr>the_logger := l2, the_world := ?w1\<rparr>)"
    using nm by (simp add: output_def Let_def fa cr)
  with c show ?thesis by blast
qed

lemma output_fails_after_header:
  assumes nm: "\<not> mu (the_logger st)" and s: "s < 4"
    and lim: "severityLimit (the_logger st) \<le> int s"
    and emp: "file (the_logger st) s = None" and no: "\<forall>p. \<not> openable e p"
    and w1: "w1 = (the_world st)\<lparr>tick := Suc (tick (the_world st))\<rparr>"
    and p1: "pool1 = (snd (getBuffer (the_pool st)))\<lparr>heap := h\<rparr>"
  shows "\<exists>st'. output e (int s) a (st\<lparr>the_pool := pool1, the_world := w1\<rparr>) = Returned st' \<and>
           lock_kept st st'"
proof -
  let ?st = "st\<lparr>the_pool := pool1, the_world := w1\<rparr>"
  have a: "\<not> mu (the_logger ?st)" "severityLimit (the_logger ?st) \<le> int s"
      "file (the_logger ?st) s = None"
      "\<not> openable e (log_path e (the_logger ?st) (severityName ! s)
                              (clock e (tick (the_world ?st))))"
    using nm lim emp no by simp_all
  from output_create_fails [OF a(1) s a(2,3,4), of a] obtain l1 where
    "output e (int s) a ?st
       = Returned (?st\<lparr>the_logger := l1,
                        the_world := (the_world ?st)\<lparr>tick := Suc (tick (the_world ?st))\<rparr>\<rparr>)"
    "mu l1" "file l1 = file (the_logger ?st)" "severityLimit l1 = severityLimit (the_logger ?st)"
    by blast
  then show ?thesis
    using w1 p1 by (simp add: lock_kept_def)
qed

lemma leveled_create_fails:
  assumes nm: "\<not> mu (the_logger st)" and s: "s < 4"
    and lim: "severityLimit (the_logger st) \<le> int s"
    and emp: "file (the_logger st) s = None" and no: "\<forall>p. \<not> openable e p"
    and vt: "valid_time (clock e (tick (the_world st)))" and ln: "snd (site caller) < 2 ^ 63"
  shows "(\<exists>st'. println e (int s) caller msg st = Returned st' \<and> lock_kept st st') \<and>
         (\<exists>st'. printf e (int s) caller msg st = Returned st' \<and> lock_kept st st')"
proof -
  have s0: "0 \<le> int s" by simp
  from header_ok [OF vt s0 ln, of "the_pool st"] obtain a pool1 w1 y' where
    h: "header e (int s) caller (the_pool st) (the_world st) = Some (a, pool1, w1)" and
    w1: "w1 = (the_world st)\<lparr>tick := Suc (tick (the_world st))\<rparr>" and
    p1: "pool1 = (snd (getBuffer (the_pool st)))
              \<lparr>heap := (heap (snd (getBuffer (the_pool st))))
                 (fst (getBuffer (the_pool st)) :=
                    \<lparr>Buffer = spec_header (clock e (tick (the_world st))) (int s)
                                (fst (site caller)) (snd (site caller)),
                     tmp = y', next = None\<rparr>)\<rparr>" and
    a: "a = fst (getBuffer (the_pool st))"
    by auto
  have acc: "\<not> int s < severityLimit (the_logger st)" using lim by simp
  have ne: "Buffer (buffer_Write (heap pool1 a) msg) \<noteq> []"
    by (simp add: buffer_Write_def p1 a spec_header_nonempty)
  have q: "pool1\<lparr>heap := h'\<rparr> = (snd (getBuffer (the_pool st)))\<lparr>heap := h'\<rparr>" for h'
    by (simp add: p1)
  from output_fails_after_header [OF nm s lim emp no w1 q]
  have "\<exists>st'. output e (int s) a (st\<lparr>the_pool := pool1\<lparr>heap := h'\<rparr>, the_world := w1\<rparr>)
            = Returned st' \<and> lock_kept st st'" for h'
    by blast
  then show ?thesis
    using acc ne by (simp add: println_def printf_def h Let_def)
qed

lemma blocked_when_locked:
  assumes m: "mu (the_logger st)"
  shows "Flush st = Blocked" "SetLogName name st = Blocked" "SetLogDir e dir st = Blocked"
    "output e s a st = Blocked"
  using m by (simp_all add: Flush_def SetLogName_def SetLogDir_def output_def)

lemma leveled_blocked:
  assumes m: "mu (the_logger st)" and s: "s < 4"
    and lim: "severityLimit (the_logger st) \<le> int s"
    and vt: "valid_time (clock e (tick (the_world st)))" and ln: "snd (site caller) < 2 ^ 63"
  shows "println e (int s) caller msg st = Blocked \<and> printf e (int s) caller msg st = Blocked"
proof -
  have s0: "0 \<le> int s" by simp
  from header_ok [OF vt s0 ln, of "the_pool st"] obtain a pool1 w1 y' where
    h: "header e (int s) caller (the_pool st) (the_world st) = Some (a, pool1, w1)" and
    b: "heap pool1 a = \<lparr>Buffer = spec_header (clock e (tick (the_world st))) (int s)
                                    (fst (site caller)) (snd (site caller)),
                        tmp = y', next = None\<rparr>"
    by auto
  have acc: "\<not> int s < severityLimit (the_logger st)" using lim by simp
  have ne: "Buffer (buffer_Write (heap pool1 a) msg) \<noteq> []"
    by (simp add: buffer_Write_def b spec_header_nonempty)
  show ?thesis
    using acc ne m by (simp add: println_def printf_def h Let_def blocked_when_locked)
qed

lemma env_closed_sel [simp]:
  "openable env_closed p = False" "clock env_closed n = t0"
  by (simp_all add: env_closed_def env0_def)

lemma valid_time_t0: "valid_time t0"
  by (simp add: valid_time_def t0_def)


text \<open>
  Claim C3. The code does not have the property when the creation of the file fails. The
  leveled write of a severity \<open>s\<close> at or above the limit whose slot is empty then returns with the
  mutex held and the buffer not put back, and afterwards \<^verbatim>\<open>Flush\<close>,
  \<^verbatim>\<open>SetLogName\<close> and every further leveled write block on the mutex.
\<close>

theorem C3_lock_kept_on_creation_failure:
  assumes nm: "\<not> mu (the_logger st)" and s: "s < 4"
    and lim: "severityLimit (the_logger st) \<le> int s"
    and emp: "file (the_logger st) s = None" and no: "\<forall>p. \<not> openable e p"
    and vt: "\<forall>n. valid_time (clock e n)"
    and ln: "snd (site caller) < 2 ^ 63" "snd (site caller2) < 2 ^ 63"
  shows "(\<exists>st'. println e (int s) caller msg st = Returned st' \<and> lock_kept st st' \<and>
            Flush st' = Blocked \<and> SetLogName name st' = Blocked \<and>
            println e (int s) caller2 msg2 st' = Blocked \<and>
            printf e (int s) caller2 msg2 st' = Blocked) \<and>
         (\<exists>st'. printf e (int s) caller msg st = Returned st' \<and> lock_kept st st' \<and>
            Flush st' = Blocked \<and> SetLogName name st' = Blocked \<and>
            println e (int s) caller2 msg2 st' = Blocked \<and>
            printf e (int s) caller2 msg2 st' = Blocked)"
proof -
  from vt have vt0: "valid_time (clock e (tick (the_world st)))" by simp
  have after: "Flush st' = Blocked \<and> SetLogName name st' = Blocked \<and>
            println e (int s) caller2 msg2 st' = Blocked \<and>
            printf e (int s) caller2 msg2 st' = Blocked" if k: "lock_kept st st'" for st'
  proof -
    from k have m: "mu (the_logger st')" and l: "severityLimit (the_logger st') \<le> int s"
      using lim by (simp_all add: lock_kept_def)
    from vt have v: "valid_time (clock e (tick (the_world st')))" by simp
    from leveled_blocked [OF m s l v ln(2)] blocked_when_locked [OF m] show ?thesis by simp
  qed
  from leveled_create_fails [OF nm s lim emp no vt0 ln(1), of msg] after show ?thesis
    by blast
qed

theorem C3_lock_kept_on_creation_failure_witness:
  "\<not> mu (the_logger init_state) \<and> file (the_logger init_state) 1 = None \<and>
   (\<exists>st'. Info env_closed None ''x'' init_state = Returned st' \<and>
      mu (the_logger st') \<and> freeList (the_pool st') = None \<and> nalloc (the_pool st') = 1 \<and>
      Flush st' = Blocked \<and> Info env_closed None ''y'' st' = Blocked)"
proof -
  have nm: "\<not> mu (the_logger init_state)" and emp: "file (the_logger init_state) 1 = None"
    and lim: "severityLimit (the_logger init_state) \<le> int 1"
    and no: "\<forall>p. \<not> openable env_closed p" and vt: "\<forall>n. valid_time (clock env_closed n)"
    and ln: "snd (site None) < 2 ^ 63"
    by (simp_all add: valid_time_t0 site_None)
  have s: "(1::nat) < 4" by simp
  from C3_lock_kept_on_creation_failure [OF nm s lim emp no vt ln ln, of "''x''" "''any''" "''y''"]
  obtain st' where
    "println env_closed (int 1) None ''x'' init_state = Returned st'" "lock_kept init_state st'"
    "Flush st' = Blocked" "println env_closed (int 1) None ''y'' st' = Blocked"
    by blast
  then have "Info env_closed None ''x'' init_state = Returned st' \<and>
      mu (the_logger st') \<and> freeList (the_pool st') = None \<and> nalloc (the_pool st') = 1 \<and>
      Flush st' = Blocked \<and> Info env_closed None ''y'' st' = Blocked"
    by (simp add: Info_def SeverityInfo_def lock_kept_def getBuffer_def init_pool_def)
  with nm emp show ?thesis by blast
qed

subsection \<open>A limit above Debug\<close>

text \<open>
  With the limit at a severity above Debug and no sink yet, \<^verbatim>\<open>createFiles\<close> stops at the
  limit and the cascade reaches the empty slot below it.
\<close>

lemma write_slot_empty: "file l k = None \<Longrightarrow> write_slot e k data (l, w) = None"
  by (simp add: write_slot_def)

lemma switch_s_empty_below:
  assumes s: "0 < s" "s < 4" and r: "write_slot e s data lw = Some (l', w')"
    and emp: "file l' (s - 1) = None"
  shows "switch_s e (int s) data lw = None"
proof -
  from s consider "s = 1" | "s = 2" | "s = 3" by linarith
  then show ?thesis
  proof cases
    case 1
    with r emp have "write_slot e 1 data lw = Some (l', w')" "write_slot e 0 data (l', w') = None"
      by (simp_all add: write_slot_empty)
    with 1 show ?thesis
      by (simp add: switch_s_def case_SeverityInfo_def case_SeverityDebug_def severity_defs)
  next
    case 2
    with r emp have "write_slot e 2 data lw = Some (l', w')" "write_slot e 1 data (l', w') = None"
      by (simp_all add: write_slot_empty)
    with 2 show ?thesis
      by (simp add: switch_s_def case_SeverityWarning_def case_SeverityInfo_def severity_defs)
  next
    case 3
    with r emp have "write_slot e 3 data lw = Some (l', w')" "write_slot e 2 data (l', w') = None"
      by (simp_all add: write_slot_empty)
    with 3 show ?thesis
      by (simp add: switch_s_def case_SeverityError_def case_SeverityWarning_def severity_defs)
  qed
qed

lemma output_panics_above_debug:
  assumes nm: "\<not> mu (the_logger st)" and s: "0 < s" "s < 4"
    and lim: "severityLimit (the_logger st) = int s"
    and emp: "file (the_logger st) s = None" "file (the_logger st) (s - 1) = None"
    and ws: "wf_slots (the_logger st) (the_world st)"
    and dh: "distinct_handles (the_logger st)" and cc: "can_create e"
  shows "output e (int s) a st = Panicked"
proof -
  let ?l = "(the_logger st)\<lparr>mu := True\<rparr>"
  let ?now = "clock e (tick (the_world st))"
  let ?w1 = "(the_world st)\<lparr>tick := Suc (tick (the_world st))\<rparr>"
  let ?data = "Buffer (heap (the_pool st) a)"
  have fa: "file_at ?l (int s) = Some None"
    using s emp by (simp add: file_at_def severityCount_def)
  have a: "openable e (log_path e ?l (severityName ! s) ?now)"
      "severityLimit ?l \<le> int s" "file ?l s = None" "wf_slots ?l ?w1"
      "distinct_handles ?l"
    using cc lim emp ws dh by (simp_all add: can_create_def)
  from createFiles_loop_round [OF a(1,2) s(2) a(3,4,5)] obtain l1 w2 sb where
    r: "createFiles_loop e ?now ?l ?w1 (int s) = createFiles_loop e ?now l1 w2 (int s - 1)"
    and p: "file l1 = (file ?l)(s := Some sb)" "wf_slots l1 w2" "distinct_handles l1"
      "grown ?l ?w1 l1 w2"
    by blast
  from p(4) lim have "int s - 1 < severityLimit l1" by (simp add: grown_def)
  from createFiles_loop_below [OF this] r
  have loop: "createFiles_loop e ?now ?l ?w1 (int s) = Some (False, l1, w2)" by simp
  have cr: "createFiles e ?l (the_world st) (int s) = Some (False, l1, w2)"
    by (simp add: createFiles_def time_Now_def loop)
  from p(1) have sl: "file l1 s = Some sb" by simp
  from write_slot_ok [OF p(2,3) cc s(2) sl, of ?data] obtain l' w' where
    w: "write_slot e s ?data (l1, w2) = Some (l', w')" and
    o: "\<forall>j. j \<noteq> s \<longrightarrow> file l' j = file l1 j"
    by blast
  from o p(1) emp(2) s(1) have "file l' (s - 1) = None" by simp
  from switch_s_empty_below [OF s w this]
  have sw: "switch_s e (int s) ?data (l1, w2) = None" .
  show ?thesis
    using nm by (simp add: output_def Let_def fa cr sw)
qed

text \<open>
  Claim C2. The code does not have the property for a limit above Debug. With the limit at
  a severity \<open>s\<close> from Info to Error and the slots \<open>s\<close> and \<open>s - 1\<close> empty, a leveled
  write of severity \<open>s\<close> passes the limit, \<^verbatim>\<open>createFiles\<close> creates the sink of \<open>s\<close>
  alone, and the cascade calls \<^verbatim>\<open>Write\<close> on the empty slot \<open>s - 1\<close>: both
  \<^verbatim>\<open>println\<close> and \<^verbatim>\<open>printf\<close> panic.
\<close>

theorem C2_panic_with_limit_above_debug:
  assumes nm: "\<not> mu (the_logger st)" and s: "0 < s" "s < 4"
    and lim: "severityLimit (the_logger st) = int s"
    and emp: "file (the_logger st) s = None" "file (the_logger st) (s - 1) = None"
    and ws: "wf_slots (the_logger st) (the_world st)"
    and dh: "distinct_handles (the_logger st)" and cc: "can_create e"
    and vt: "valid_time (clock e (tick (the_world st)))" and ln: "snd (site caller) < 2 ^ 63"
  shows "println e (int s) caller msg st = Panicked \<and>
         printf e (int s) caller msg st = Panicked"
proof -
  have s0: "0 \<le> int s" by simp
  from header_ok [OF vt s0 ln, of "the_pool st"] obtain a pool1 w1 y' where
    h: "header e (int s) caller (the_pool st) (the_world st) = Some (a, pool1, w1)" and
    w1: "w1 = (the_world st)\<lparr>tick := Suc (tick (the_world st))\<rparr>" and
    b: "heap pool1 a = \<lparr>Buffer = spec_header (clock e (tick (the_world st))) (int s)
                                    (fst (site caller)) (snd (site caller)),
                        tmp = y', next = None\<rparr>"
    by auto
  have acc: "\<not> int s < severityLimit (the_logger st)" using lim by simp
  have ne: "Buffer (buffer_Write (heap pool1 a) msg) \<noteq> []"
    by (simp add: buffer_Write_def b spec_header_nonempty)
  have "output e (int s) a (st\<lparr>the_pool := pool2, the_world := w1\<rparr>) = Panicked" for pool2
    using nm lim emp ws dh w1 by (intro output_panics_above_debug [OF _ s _ _ _ _ _ cc]) simp_all
  then show ?thesis
    using acc ne by (simp add: println_def printf_def h Let_def)
qed

lemma wf_init_limit:
  "wf_slots (SetSeverityLimit init_logger x) w" "distinct_handles (SetSeverityLimit init_logger x)"
  by (simp_all add: wf_slots_def distinct_handles_def SetSeverityLimit_def)

theorem C2_panic_with_limit_above_debug_witness:
  "can_create env0 \<and>
   Info env0 None ''x'' (init_state\<lparr>the_logger := SetSeverityLimit init_logger SeverityInfo\<rparr>)
     = Panicked \<and>
   Infof env0 None ''x'' (init_state\<lparr>the_logger := SetSeverityLimit init_logger SeverityInfo\<rparr>)
     = Panicked"
proof -
  let ?st = "init_state\<lparr>the_logger := SetSeverityLimit init_logger SeverityInfo\<rparr>"
  have a: "\<not> mu (the_logger ?st)" "severityLimit (the_logger ?st) = int 1"
      "file (the_logger ?st) 1 = None" "file (the_logger ?st) (1 - 1) = None"
      "wf_slots (the_logger ?st) (the_world ?st)" "distinct_handles (the_logger ?st)"
      "valid_time (clock env0 (tick (the_world ?st)))" "snd (site None) < 2 ^ 63"
    by (simp_all add: wf_init_limit)
       (simp_all add: SetSeverityLimit_def SeverityInfo_def clock_env0 valid_time_t0 site_None)
  have s: "(0::nat) < 1" "(1::nat) < 4" by simp_all
  from C2_panic_with_limit_above_debug [OF a(1) s a(2,3,4,5,6) can_create_env0 a(7,8), of "''x''"]
  show ?thesis
    using can_create_env0 by (simp add: Info_def Infof_def SeverityInfo_def)
qed

subsection \<open>The slots after a failed creation\<close>

text \<open>
  \<^verbatim>\<open>output\<close> of an Error record when the ERROR file can be created and the WARNING file
  cannot: the loop of \<^verbatim>\<open>createFiles\<close> fills slot 3 and fails at slot 2.
\<close>

lemma severityName_nth [simp]:
  "severityName ! 3 = ''ERROR''" "severityName ! 2 = ''WARNING''"
  "severityName ! Suc 0 = ''INFO''" "severityName ! 0 = ''DEBUG''"
  by (simp_all add: severityName_def numeral_3_eq_3 numeral_2_eq_2)

lemma output_leaves_gap:
  assumes nm: "\<not> mu (the_logger st)"
    and lim: "severityLimit (the_logger st) \<le> 2"
    and emp: "file (the_logger st) 3 = None" "file (the_logger st) 2 = None"
    and ws: "wf_slots (the_logger st) (the_world st)"
    and dh: "distinct_handles (the_logger st)"
    and opE: "openable e (log_path e (the_logger st) ''ERROR'' (clock e (tick (the_world st))))"
    and opW: "\<not> openable e (log_path e (the_logger st) ''WARNING''
                               (clock e (tick (the_world st))))"
  shows "\<exists>st'. output e 3 a st = Returned st' \<and> mu (the_logger st') \<and>
           file (the_logger st') 3 \<noteq> None \<and> file (the_logger st') 2 = None \<and>
           severityLimit (the_logger st') = severityLimit (the_logger st)"
proof -
  let ?l = "(the_logger st)\<lparr>mu := True\<rparr>"
  let ?now = "clock e (tick (the_world st))"
  let ?w1 = "(the_world st)\<lparr>tick := Suc (tick (the_world st))\<rparr>"
  have fa: "file_at ?l 3 = Some None"
    using emp by (simp add: file_at_def severityCount_def)
  have a: "openable e (log_path e ?l (severityName ! 3) ?now)"
      "severityLimit ?l \<le> int 3" "(3::nat) < 4" "file ?l 3 = None" "wf_slots ?l ?w1"
      "distinct_handles ?l"
    using opE lim emp ws dh by simp_all
  from createFiles_loop_round [OF a] obtain l1 w2 sb where
    r: "createFiles_loop e ?now ?l ?w1 (int 3) = createFiles_loop e ?now l1 w2 (int 3 - 1)"
    and p: "file l1 = (file ?l)(3 := Some sb)" "grown ?l ?w1 l1 w2"
      "\<forall>tag t. log_path e l1 tag t = log_path e ?l tag t"
    by blast
  from p(2) have c1: "severityLimit l1 = severityLimit (the_logger st)" "mu l1"
    by (simp_all add: grown_def)
  let ?sb = "\<lparr>Writer = None, sb_file = None, sev = 2, nbytes = 0\<rparr>"
  have "\<not> openable e (log_path e l1 (severityName ! nat (sev ?sb)) ?now)"
    using opW p(3) by simp
  from rotateFile_new_fail [OF this, of w2] obtain l2 sb' where
    rf: "rotateFile e ?now l1 w2 ?sb = Some (True, l2, w2, sb')" and nk: "names_kept e l1 l2"
    by auto
  from nk have c2: "file l2 = file l1" "mu l2 = mu l1" "severityLimit l2 = severityLimit l1"
    by (simp_all add: names_kept_def cfg_only_def)
  have fa2: "file_at l1 2 = Some None"
    using p(1) emp by (simp add: file_at_def severityCount_def)
  have "createFiles_loop e ?now l1 w2 2 = Some (True, l2, w2)"
    using lim c1 by (subst createFiles_loop.simps) (simp add: fa2 rf)
  with r have loop: "createFiles_loop e ?now ?l ?w1 3 = Some (True, l2, w2)" by simp
  have cr: "createFiles e ?l (the_world st) 3 = Some (True, l2, w2)"
    by (simp add: createFiles_def time_Now_def loop)
  have "output e 3 a st = Returned (st\<lparr>the_logger := l2, the_world := w2\<rparr>)"
    using nm by (simp add: output_def Let_def fa cr)
  then show ?thesis
    using c1 c2 p(1) emp by simp
qed

text \<open>
  Claim C5. The code does not keep the invariant when a creation fails below a creation that
  succeeded. Let the slots of Error and Warning be empty and the limit at most Warning; if at
  the time that \<^verbatim>\<open>createFiles\<close> reads, the ERROR file can be opened and the WARNING
  file cannot, then \<^verbatim>\<open>Error\<close> returns with slot 3 populated and slot 2 empty, so
  \<open>no_gaps\<close> fails.
\<close>

theorem C5_gap_after_failed_creation:
  assumes nm: "\<not> mu (the_logger st)"
    and lim: "severityLimit (the_logger st) \<le> 2"
    and emp: "file (the_logger st) 3 = None" "file (the_logger st) 2 = None"
    and ws: "wf_slots (the_logger st) (the_world st)"
    and dh: "distinct_handles (the_logger st)"
    and opE: "openable e (log_path e (the_logger st) ''ERROR''
                            (clock e (Suc (tick (the_world st)))))"
    and opW: "\<not> openable e (log_path e (the_logger st) ''WARNING''
                               (clock e (Suc (tick (the_world st)))))"
    and vt: "valid_time (clock e (tick (the_world st)))" and ln: "snd (site caller) < 2 ^ 63"
  shows "\<exists>st'. Error e caller msg st = Returned st' \<and>
           file (the_logger st') 3 \<noteq> None \<and> file (the_logger st') 2 = None \<and>
           severityLimit (the_logger st') = severityLimit (the_logger st) \<and>
           \<not> no_gaps (the_logger st')"
proof -
  have s0: "0 \<le> (3::int)" by simp
  from header_ok [OF vt s0 ln, of "the_pool st"] obtain a pool1 w1 where
    h: "header e 3 caller (the_pool st) (the_world st) = Some (a, pool1, w1)" and
    w1: "w1 = (the_world st)\<lparr>tick := Suc (tick (the_world st))\<rparr>"
    by auto
  have acc: "\<not> 3 < severityLimit (the_logger st)" using lim by simp
  let ?st = "st\<lparr>the_pool := pool1\<lparr>heap := (heap pool1)
                 (a := buffer_Write (heap pool1 a) (msg @ [CHR 0x0A]))\<rparr>, the_world := w1\<rparr>"
  have x: "\<not> mu (the_logger ?st)" "severityLimit (the_logger ?st) \<le> 2"
      "file (the_logger ?st) 3 = None" "file (the_logger ?st) 2 = None"
      "wf_slots (the_logger ?st) (the_world ?st)" "distinct_handles (the_logger ?st)"
      "openable e (log_path e (the_logger ?st) ''ERROR'' (clock e (tick (the_world ?st))))"
      "\<not> openable e (log_path e (the_logger ?st) ''WARNING'' (clock e (tick (the_world ?st))))"
    using nm lim emp ws dh opE opW w1 by simp_all
  from output_leaves_gap [OF x, of a] obtain st' where
    r: "output e 3 a ?st = Returned st'" and
    g: "file (the_logger st') 3 \<noteq> None" "file (the_logger st') 2 = None"
       "severityLimit (the_logger st') = severityLimit (the_logger st)"
    by auto
  have e: "Error e caller msg st = Returned st'"
    using acc r by (simp add: Error_def println_def SeverityError_def h Let_def)
  have "\<not> no_gaps (the_logger st')"
  proof
    assume ng: "no_gaps (the_logger st')"
    have "3 \<in> {0..<4::nat}" "2 \<in> {0..3::nat}" by simp_all
    with ng have "file (the_logger st') 3 \<noteq> None \<and> severityLimit (the_logger st') \<le> int 2
        \<longrightarrow> file (the_logger st') 2 \<noteq> None"
      unfolding no_gaps_def by blast
    with g lim show False by simp
  qed
  with e g show ?thesis by blast
qed

lemma log_path_init:
  "log_path env_error_only init_logger ''ERROR'' t0 = ''/srv/log/app.ERROR.20240102-030405.42.log''"
  "log_path env_error_only init_logger ''WARNING'' t0 = ''/srv/log/app.WARNING.20240102-030405.42.log''"
  by (simp_all add: log_path_def syncBuffer_logName_def getLogName_def getLogDir_def Let_def
      convDirAbs_def env_error_only_def env0_def init_logger_def t0_def fmt_0d_def fmt_d_def
      dec_nat.simps digits_def)

theorem C5_gap_after_failed_creation_witness:
  "\<not> mu (the_logger init_state) \<and> severityLimit (the_logger init_state) = 0 \<and>
   file (the_logger init_state) 3 = None \<and> file (the_logger init_state) 2 = None \<and>
   (\<exists>st'. Error env_error_only None ''x'' init_state = Returned st' \<and>
           file (the_logger st') 3 \<noteq> None \<and> file (the_logger st') 2 = None \<and>
           severityLimit (the_logger st') = 0 \<and> \<not> no_gaps (the_logger st'))"
proof -
  have c: "clock env_error_only n = t0" for n by (simp add: env_error_only_def env0_def)
  have a: "\<not> mu (the_logger init_state)" "severityLimit (the_logger init_state) \<le> 2"
      "file (the_logger init_state) 3 = None" "file (the_logger init_state) 2 = None"
      "wf_slots (the_logger init_state) (the_world init_state)"
      "distinct_handles (the_logger init_state)"
      "openable env_error_only (log_path env_error_only (the_logger init_state) ''ERROR''
                            (clock env_error_only (Suc (tick (the_world init_state)))))"
      "\<not> openable env_error_only (log_path env_error_only (the_logger init_state) ''WARNING''
                               (clock env_error_only (Suc (tick (the_world init_state)))))"
      "valid_time (clock env_error_only (tick (the_world init_state)))"
      "snd (site None) < 2 ^ 63"
    by (simp_all add: c log_path_init valid_time_t0 site_None)
       (simp_all add: wf_slots_def distinct_handles_def env_error_only_def)
  from C5_gap_after_failed_creation [OF a, of "''x''"] a(1,3,4) show ?thesis
    by simp
qed

subsection \<open>Changing the name and the directory\<close>

lemma flush_slot_flushed:
  assumes ws: "wf_slots l w" and k: "k < 4" and r: "flush_slot k (l, w) = Some (l', w')"
  shows "(\<forall>sb. file l' k = Some sb \<longrightarrow> flushed sb) \<and> (\<forall>j. j \<noteq> k \<longrightarrow> file l' j = file l j)"
proof (cases "file l k")
  case None
  with r show ?thesis by (simp add: flush_slot_def)
next
  case (Some sb)
  from ws k Some have h: "healthy w sb" by (auto simp: wf_slots_def)
  from healthyD [OF h] obtain bw where W: "Writer sb = Some bw"
    and hb: "wr bw < length (files w)" "\<not> closed (files w ! wr bw)" "\<not> err bw" by blast
  from r have "l' = l\<lparr>file := (file l)(k := Some (sb\<lparr>Writer := Some (bw\<lparr>buf := []\<rparr>)\<rparr>))\<rparr>"
    by (simp add: flush_slot_def Some W bufio_Flush_ok hb)
  then show ?thesis by (simp add: flushed_def)
qed

lemma flushAll_flushed:
  assumes ws: "wf_slots l w" and dh: "distinct_handles l"
  shows "\<exists>l' w'. flushAll (l, w) = Some (l', w') \<and>
           wf_slots l' w' \<and> distinct_handles l' \<and> same_streams l w l' w' \<and>
           (\<forall>k sb. k < 4 \<and> file l' k = Some sb \<longrightarrow> flushed sb)"
proof -
  from flush_slot_ok [OF ws dh, of 3] obtain l3 w3 where
    a: "flush_slot 3 (l, w) = Some (l3, w3)" "wf_slots l3 w3" "distinct_handles l3"
       "same_streams l w l3 w3" by auto
  from flush_slot_ok [OF a(2,3), of 2] obtain l2 w2 where
    b: "flush_slot 2 (l3, w3) = Some (l2, w2)" "wf_slots l2 w2" "distinct_handles l2"
       "same_streams l3 w3 l2 w2" by auto
  from flush_slot_ok [OF b(2,3), of 1] obtain l1 w1 where
    c: "flush_slot 1 (l2, w2) = Some (l1, w1)" "wf_slots l1 w1" "distinct_handles l1"
       "same_streams l2 w2 l1 w1" by auto
  from flush_slot_ok [OF c(2,3), of 0] obtain l0 w0 where
    d: "flush_slot 0 (l1, w1) = Some (l0, w0)" "wf_slots l0 w0" "distinct_handles l0"
       "same_streams l1 w1 l0 w0" by auto
  have ss: "same_streams l w l0 w0"
    using same_streams_trans [OF same_streams_trans [OF same_streams_trans [OF a(4) b(4)] c(4)] d(4)] .
  note f3 = flush_slot_flushed [OF ws _ a(1)]
  note f2 = flush_slot_flushed [OF a(2) _ b(1)]
  note f1 = flush_slot_flushed [OF b(2) _ c(1)]
  note f0 = flush_slot_flushed [OF c(2) _ d(1)]
  have fl: "flushed sb" if "k < 4" "file l0 k = Some sb" for k sb
  proof -
    from that(1) consider "k = 0" | "k = 1" | "k = 2" | "k = 3" by linarith
    then show ?thesis
    proof cases
      case 1
      with that f0 show ?thesis by simp
    next
      case 2
      with that f0 have "file l1 1 = Some sb" by simp
      with f1 show ?thesis by simp
    next
      case 3
      with that f0 f1 have "file l2 2 = Some sb" by simp
      with f2 show ?thesis by simp
    next
      case 4
      with that f0 f1 f2 have "file l3 3 = Some sb" by simp
      with f3 show ?thesis by simp
    qed
  qed
  have "flushAll (l, w) = Some (l0, w0)"
    using a b c d by (simp add: flushAll_def)
  with d(2,3) ss fl show ?thesis
    by (intro exI [of _ l0] exI [of _ w0]) blast
qed

lemma upt_4: "[0..<4] = [0, 1, 2, 3]"
  by (simp add: numeral_eq_Suc)

lemma resetFiles_sel [simp]:
  "file (resetFiles l) = (\<lambda>k. if k < 4 then None else file l k)"
  "mu (resetFiles l) = mu l" "severityLimit (resetFiles l) = severityLimit l"
  "logName (resetFiles l) = logName l" "logDir (resetFiles l) = logDir l"
  "maxSize (resetFiles l) = maxSize l"
  by (auto simp: resetFiles_def severityCount_def upt_4)

lemma flush_slot_names:
  "flush_slot k (l, w) = Some (l', w') \<Longrightarrow> logName l' = logName l \<and> logDir l' = logDir l"
  by (auto simp: flush_slot_def split: option.splits prod.splits)

lemma flushAll_names:
  assumes "flushAll (l, w) = Some (l', w')"
  shows "logName l' = logName l \<and> logDir l' = logDir l"
proof -
  from assms obtain l3 w3 l2 w2 l1 w1 where
    "flush_slot 3 (l, w) = Some (l3, w3)" "flush_slot 2 (l3, w3) = Some (l2, w2)"
    "flush_slot 1 (l2, w2) = Some (l1, w1)" "flush_slot 0 (l1, w1) = Some (l', w')"
    by (auto simp: flushAll_def split: Option.bind_splits)
  then show ?thesis
    using flush_slot_names [of 3 l w l3 w3] flush_slot_names [of 2 l3 w3 l2 w2]
      flush_slot_names [of 1 l2 w2 l1 w1] flush_slot_names [of 0 l1 w1 l' w']
    by simp
qed

text \<open>What flushing leaves of the sinks: all that a sink accepted is in its file, still open.\<close>

lemma flushAll_files:
  assumes nm: "\<not> mu (the_logger st)" and ws: "wf_slots (the_logger st) (the_world st)"
    and dh: "distinct_handles (the_logger st)"
  shows "\<exists>l1 w1. flushAll ((the_logger st)\<lparr>mu := True\<rparr>, the_world st) = Some (l1, w1) \<and>
           logName l1 = logName (the_logger st) \<and> logDir l1 = logDir (the_logger st) \<and>
           severityLimit l1 = severityLimit (the_logger st) \<and>
           stderr w1 = stderr (the_world st) \<and>
           (\<forall>k sb. k < 4 \<and> file (the_logger st) k = Some sb \<longrightarrow>
              (\<exists>h. sb_file sb = Some h \<and> h < length (files w1) \<and>
                   written (files w1 ! h) = stream (the_world st) sb \<and>
                   \<not> closed (files w1 ! h)))"
proof -
  let ?l = "(the_logger st)\<lparr>mu := True\<rparr>"
  let ?w = "the_world st"
  from flushAll_flushed [of ?l ?w] ws dh obtain l1 w1 where
    f: "flushAll (?l, ?w) = Some (l1, w1)" and ws1: "wf_slots l1 w1" and
    ss: "same_streams ?l ?w l1 w1" and fl: "\<forall>k sb. k < 4 \<and> file l1 k = Some sb \<longrightarrow> flushed sb"
    by auto
  have old: "\<exists>h. sb_file sb = Some h \<and> h < length (files w1) \<and>
                   written (files w1 ! h) = stream ?w sb \<and> \<not> closed (files w1 ! h)"
    if k: "k < 4" and sl: "file (the_logger st) k = Some sb" for k sb
  proof -
    from ss have "(file l1 k = None) = (file ?l k = None)" unfolding same_streams_def by blast
    with sl obtain sb1 where s1: "file l1 k = Some sb1" by (cases "file l1 k") auto
    from ss k sl s1 have e: "stream w1 sb1 = stream ?w sb" "sb_file sb1 = sb_file sb"
      unfolding same_streams_def by auto
    from ws1 k s1 have "healthy w1 sb1" by (auto simp: wf_slots_def)
    from healthyD [OF this] obtain bw where W: "Writer sb1 = Some bw"
      and hb: "sb_file sb1 = Some (wr bw)" "wr bw < length (files w1)"
        "\<not> closed (files w1 ! wr bw)" by blast
    from fl k s1 have "flushed sb1" by blast
    with W have "buf bw = []" by (simp add: flushed_def)
    with W have "stream w1 sb1 = written (files w1 ! wr bw)" by (simp add: stream_def)
    with e hb have "sb_file sb = Some (wr bw) \<and> wr bw < length (files w1) \<and>
        written (files w1 ! wr bw) = stream ?w sb \<and> \<not> closed (files w1 ! wr bw)"
      by simp
    then show ?thesis by (rule exI)
  qed
  from ss have "severityLimit l1 = severityLimit (the_logger st)" "stderr w1 = stderr ?w"
    by (simp_all add: same_streams_def)
  moreover from old have "\<forall>k sb. k < 4 \<and> file (the_logger st) k = Some sb \<longrightarrow>
              (\<exists>h. sb_file sb = Some h \<and> h < length (files w1) \<and>
                   written (files w1 ! h) = stream (the_world st) sb \<and>
                   \<not> closed (files w1 ! h))"
    by blast
  moreover from flushAll_names [OF f]
  have "logName l1 = logName (the_logger st)" "logDir l1 = logDir (the_logger st)"
    by simp_all
  ultimately show ?thesis
    using f by blast
qed

lemma unlock_same: "\<not> mu (the_logger st) \<Longrightarrow> st\<lparr>the_logger := (the_logger st)\<lparr>mu := False\<rparr>\<rparr> = st"
  by simp

text \<open>
  Claim C8. The code does all that the claim says except closing. On a well-formed state,
  \<^verbatim>\<open>SetLogName\<close> with the stored name and \<^verbatim>\<open>SetLogDir\<close> with a directory whose
  absolute form is the stored one change nothing. Otherwise they return with every slot
  empty and the new value stored (for \<^verbatim>\<open>SetLogDir\<close> the absolute form), and the file
  of every former sink holds all that the sink accepted, the buffered bytes included, but
  is not closed.
\<close>

theorem C8_reset_leaves_files_open:
  assumes nm: "\<not> mu (the_logger st)" and ws: "wf_slots (the_logger st) (the_world st)"
    and dh: "distinct_handles (the_logger st)"
  shows "(name = logName (the_logger st) \<longrightarrow> SetLogName name st = Returned st) \<and>
         (name \<noteq> logName (the_logger st) \<longrightarrow>
            (\<exists>st'. SetLogName name st = Returned st' \<and> sinks_dropped st st' \<and>
                   logName (the_logger st') = name \<and>
                   logDir (the_logger st') = logDir (the_logger st))) \<and>
         (convDirAbs e dir = logDir (the_logger st) \<longrightarrow> SetLogDir e dir st = Returned st) \<and>
         (convDirAbs e dir \<noteq> logDir (the_logger st) \<longrightarrow>
            (\<exists>st'. SetLogDir e dir st = Returned st' \<and> sinks_dropped st st' \<and>
                   logDir (the_logger st') = convDirAbs e dir \<and>
                   logName (the_logger st') = logName (the_logger st)))"
proof -
  from flushAll_files [OF nm ws dh] obtain l1 w1 where
    f: "flushAll ((the_logger st)\<lparr>mu := True\<rparr>, the_world st) = Some (l1, w1)" and
    n: "logName l1 = logName (the_logger st)" "logDir l1 = logDir (the_logger st)"
       "severityLimit l1 = severityLimit (the_logger st)" "stderr w1 = stderr (the_world st)" and
    o: "\<forall>k sb. k < 4 \<and> file (the_logger st) k = Some sb \<longrightarrow>
              (\<exists>h. sb_file sb = Some h \<and> h < length (files w1) \<and>
                   written (files w1 ! h) = stream (the_world st) sb \<and>
                   \<not> closed (files w1 ! h))"
    by blast
  have a: "SetLogName name st = Returned st" if "name = logName (the_logger st)"
    using that nm by (simp add: SetLogName_def Let_def)
  have b: "\<exists>st'. SetLogName name st = Returned st' \<and> sinks_dropped st st' \<and>
                   logName (the_logger st') = name \<and>
                   logDir (the_logger st') = logDir (the_logger st)"
    if "name \<noteq> logName (the_logger st)"
    using that nm n o by (simp add: SetLogName_def Let_def f sinks_dropped_def)
  have c: "SetLogDir e dir st = Returned st" if "convDirAbs e dir = logDir (the_logger st)"
    using that nm by (simp add: SetLogDir_def Let_def)
  have d: "\<exists>st'. SetLogDir e dir st = Returned st' \<and> sinks_dropped st st' \<and>
                   logDir (the_logger st') = convDirAbs e dir \<and>
                   logName (the_logger st') = logName (the_logger st)"
    if "convDirAbs e dir \<noteq> logDir (the_logger st)"
    using that nm n o by (simp add: SetLogDir_def Let_def f sinks_dropped_def)
  from a b c d show ?thesis by blast
qed

lemma log_path_named:
  "logName l \<noteq> [] \<Longrightarrow> logDir l \<noteq> [] \<Longrightarrow>
   log_path e l tag t =
     Join e (logDir l)
       (logName l @ ''.'' @ tag @ ''.'' @
        fmt_0d 4 (Year t) @ fmt_0d 2 (Month t) @ fmt_0d 2 (Day t) @ ''-'' @
        fmt_0d 2 (Hour t) @ fmt_0d 2 (Minute t) @ fmt_0d 2 (Second t) @ ''.'' @
        fmt_d (pid e) @ ''.log'')"
  by (simp add: log_path_def syncBuffer_logName_def getLogName_def getLogDir_def Let_def)

lemma debug_state_wf:
  "\<not> mu (the_logger debug_state)" "wf_slots (the_logger debug_state) (the_world debug_state)"
  "distinct_handles (the_logger debug_state)"
  by (auto simp: debug_state_def init_logger_def init_world_def wf_slots_def
      distinct_handles_def healthy_def split: if_splits)

lemma debug_state_sel:
  "logName (the_logger debug_state) = ''app''" "logDir (the_logger debug_state) = ''/srv/log''"
  "file (the_logger debug_state) 0
     = Some \<lparr>Writer = Some \<lparr>wr = 0, buf = ''pending'', err = False\<rparr>,
             sb_file = Some 0, sev = 0, nbytes = 15\<rparr>"
  "stream (the_world debug_state)
     \<lparr>Writer = Some \<lparr>wr = 0, buf = ''pending'', err = False\<rparr>,
      sb_file = Some 0, sev = 0, nbytes = 15\<rparr> = ''previouspending''"
  by (simp_all add: debug_state_def init_logger_def init_world_def stream_def)

theorem C8_reset_leaves_files_open_witness:
  "\<not> mu (the_logger debug_state) \<and>
   wf_slots (the_logger debug_state) (the_world debug_state) \<and>
   distinct_handles (the_logger debug_state) \<and>
   SetLogName ''app'' debug_state = Returned debug_state \<and>
   SetLogDir env0 ''log'' debug_state = Returned debug_state \<and>
   (\<exists>st'. SetLogName ''svc'' debug_state = Returned st' \<and>
      file (the_logger st') 0 = None \<and> logName (the_logger st') = ''svc'' \<and>
      written (files (the_world st') ! 0) = ''previouspending'' \<and>
      \<not> closed (files (the_world st') ! 0) \<and>
      log_path env0 (the_logger st') ''DEBUG'' t0 = ''/srv/log/svc.DEBUG.20240102-030405.42.log'') \<and>
   (\<exists>st'. SetLogDir env0 ''out'' debug_state = Returned st' \<and>
      file (the_logger st') 0 = None \<and> logDir (the_logger st') = ''/srv/out'' \<and>
      written (files (the_world st') ! 0) = ''previouspending'' \<and>
      \<not> closed (files (the_world st') ! 0) \<and>
      log_path env0 (the_logger st') ''DEBUG'' t0 = ''/srv/out/app.DEBUG.20240102-030405.42.log'')"
proof -
  note th = C8_reset_leaves_files_open [OF debug_state_wf]
  have cd: "convDirAbs env0 ''log'' = ''/srv/log''" "convDirAbs env0 ''out'' = ''/srv/out''"
    by (simp_all add: convDirAbs_def env0_def)
  have dropped: "file (the_logger st') 0 = None \<and>
      written (files (the_world st') ! 0) = ''previouspending'' \<and>
      \<not> closed (files (the_world st') ! 0)" if "sinks_dropped debug_state st'" for st'
  proof -
    from that have a: "file (the_logger st') 0 = None" by (simp add: sinks_dropped_def)
    from that debug_state_sel(3) have
      "\<exists>h. sb_file \<lparr>Writer = Some \<lparr>wr = 0, buf = ''pending'', err = False\<rparr>,
                      sb_file = Some 0, sev = 0, nbytes = 15\<rparr> = Some h \<and>
           h < length (files (the_world st')) \<and>
           written (files (the_world st') ! h)
             = stream (the_world debug_state)
                 \<lparr>Writer = Some \<lparr>wr = 0, buf = ''pending'', err = False\<rparr>,
                  sb_file = Some 0, sev = 0, nbytes = 15\<rparr> \<and>
           \<not> closed (files (the_world st') ! h)"
      unfolding sinks_dropped_def by (elim conjE allE [of _ 0] allE [of _ "\<lparr>Writer = Some \<lparr>wr = 0, buf = ''pending'', err = False\<rparr>, sb_file = Some 0, sev = 0, nbytes = 15\<rparr>"]) simp
    with a show ?thesis by (simp add: debug_state_sel(4))
  qed
  from th [of "''app''"] have a: "SetLogName ''app'' debug_state = Returned debug_state"
    by (simp add: debug_state_sel)
  from th [of _ env0 "''log''"] have b: "SetLogDir env0 ''log'' debug_state = Returned debug_state"
    by (simp add: debug_state_sel cd)
  from th [of "''svc''"] obtain st1 where
    c: "SetLogName ''svc'' debug_state = Returned st1" "sinks_dropped debug_state st1"
       "logName (the_logger st1) = ''svc''" "logDir (the_logger st1) = ''/srv/log''"
    by (auto simp: debug_state_sel)
  from th [of _ env0 "''out''"] obtain st2 where
    d: "SetLogDir env0 ''out'' debug_state = Returned st2" "sinks_dropped debug_state st2"
       "logDir (the_logger st2) = ''/srv/out''" "logName (the_logger st2) = ''app''"
    by (auto simp: debug_state_sel cd)
  have p1: "log_path env0 (the_logger st1) ''DEBUG'' t0 = ''/srv/log/svc.DEBUG.20240102-030405.42.log''"
    using c(3,4)
    by (simp add: log_path_named env0_def t0_def fmt_0d_def fmt_d_def dec_nat.simps digits_def)
  have p2: "log_path env0 (the_logger st2) ''DEBUG'' t0 = ''/srv/out/app.DEBUG.20240102-030405.42.log''"
    using d(3,4)
    by (simp add: log_path_named env0_def t0_def fmt_0d_def fmt_d_def dec_nat.simps digits_def)
  from a b c d p1 p2 dropped [OF c(2)] dropped [OF d(2)] debug_state_wf show ?thesis
    by blast
qed

subsection \<open>Rotation, also when the new file cannot be created\<close>

lemma log_path_getMaxSize [simp]:
  "log_path e (snd (getMaxSize l)) tag t = log_path e l tag t"
  by (simp add: log_path_def syncBuffer_logName_def getLogName_def getLogDir_def getMaxSize_def
      Let_def)







lemma openable_env0 [simp]: "openable env0 P"
  by (simp add: env0_def)







lemma SetMaxSize_names [simp]:
  "logName (SetMaxSize l m) = logName l" "logDir (SetMaxSize l m) = logDir l"
  by (simp_all add: SetMaxSize_def)

lemma init_names [simp]: "logName init_logger = []" "logDir init_logger = []"
  by (simp_all add: init_logger_def)



end
